theory Spec2Isabelle
  imports Complex_Main "HOL-Library.Log_Nat" "HOL-Library.Multiset"
begin

section \<open>Machine arithmetic used by the table\<close>

text \<open>
  The table of \<^verbatim>\<open>chainhash.h\<close> keeps its capacity and its counters in C++ \<^verbatim>\<open>int\<close>s
  (32 bits, two's complement). \<^verbatim>\<open>rehashing\<close> computes \<^verbatim>\<open>oldCap * 2 + 1\<close> and guards the
  result with \<^verbatim>\<open>if (newCap <= oldCap) newCap = oldCap + 1\<close>. For a positive \<^verbatim>\<open>oldCap\<close> the
  guard can only fire when the arithmetic has wrapped around, so the two additions of
  \<^verbatim>\<open>rehashing\<close> are modelled with the wrap-around written out (\<open>int32\<close>), which is the
  reading of signed overflow that the guard presupposes. The counters \<^verbatim>\<open>nsize\<close>,
  \<^verbatim>\<open>bucket_sizes[i]\<close> and \<^verbatim>\<open>usedBuckets\<close> count live nodes and occupied buckets and are
  stepped by one; they are modelled as mathematical integers (a counter wraps only with
  \<open>2 ^ 31\<close> live nodes).
\<close>

definition INT_MAX :: int where
  "INT_MAX = 2147483647"

definition int32 :: "int \<Rightarrow> int" where
  "int32 x = (x + 2147483648) mod 4294967296 - 2147483648"

text \<open>
  \<^verbatim>\<open>fillFactor()\<close> divides two \<^verbatim>\<open>double\<close>s and the result is compared with the
  \<^verbatim>\<open>const float maxFillFactor = 0.8\<close>. A finite binary floating-point number is modelled
  by its exact rational value. \<open>round_to p x\<close> is IEEE 754 round-to-nearest, ties-to-even,
  to \<open>p\<close> significant bits (\<open>p = 53\<close> for \<^verbatim>\<open>double\<close>, \<open>p = 24\<close> for \<^verbatim>\<open>float\<close>); the
  exponent range is not modelled, since a quotient of two non-zero 32-bit integers lies
  between \<open>2 powi (-31)\<close> and \<open>2 powi 31\<close>.
\<close>

definition round_half_even :: "rat \<Rightarrow> int" where
  "round_half_even x =
     (let f = \<lfloor>x\<rfloor>; d = x - of_int f
      in if d < 1 / 2 then f
         else if 1 / 2 < d then f + 1
         else if even f then f else f + 1)"

definition binade :: "rat \<Rightarrow> int" where
  \<comment> \<open>for \<open>0 < x\<close>: the exponent \<open>e\<close> with \<open>2 powi e \<le> x < 2 powi (e + 1)\<close>\<close>
  "binade x = (if 1 \<le> x then bitlen \<lfloor>x\<rfloor> - 1 else - bitlen (\<lceil>1 / x\<rceil> - 1))"

definition round_to :: "nat \<Rightarrow> rat \<Rightarrow> rat" where
  "round_to p x =
     (if x = 0 then 0
      else let e = binade \<bar>x\<bar> - (int p - 1)
           in sgn x * of_int (round_half_even (\<bar>x\<bar> / 2 powi e)) * 2 powi e)"

definition double_of_int :: "int \<Rightarrow> rat" where
  \<comment> \<open>\<^verbatim>\<open>(double)i\<close> for a 32-bit \<^verbatim>\<open>int\<close>: exact\<close>
  "double_of_int i = of_int i"

definition double_div :: "rat \<Rightarrow> rat \<Rightarrow> rat" where
  \<comment> \<open>\<^verbatim>\<open>a / b\<close> on \<^verbatim>\<open>double\<close>s with \<open>b \<noteq> 0\<close>: the correctly rounded quotient\<close>
  "double_div a b = round_to 53 (a / b)"

definition maxColision :: int where
  "maxColision = 3"

definition maxFillFactor :: rat where
  \<comment> \<open>the \<^verbatim>\<open>double\<close> literal \<^verbatim>\<open>0.8\<close>, converted to \<^verbatim>\<open>float\<close>\<close>
  "maxFillFactor = round_to 24 (round_to 53 (4 / 5))"

section \<open>The chained hash table\<close>

text \<open>
  A bucket's chain of \<^verbatim>\<open>ChainHashNode\<close>s is the list of its (key, value) pairs from the
  head on; the \<^verbatim>\<open>next\<close> pointer of a node is the tail of the list. The table is the record
  of the five fields of \<^verbatim>\<open>class ChainHash\<close>. \<^verbatim>\<open>std::hash<TK>\<close> is a parameter \<open>h\<close> of every
  operation that hashes.
\<close>

type_synonym ('k, 'v) chain = "('k \<times> 'v) list"

record ('k, 'v) ChainHash =
  array :: "('k, 'v) chain list"
  nsize :: int
  capacity :: int
  bucket_sizes :: "int list"
  usedBuckets :: int

datatype error = KeyNotFound | IndexOutOfRange | BadArrayNewLength

definition ChainHash_init :: "int \<Rightarrow> ('k, 'v) ChainHash" where
  "ChainHash_init initialCapacity =
     (let c = (if initialCapacity \<le> 0 then 10 else initialCapacity)
      in \<lparr>array = replicate (nat c) [], nsize = 0, capacity = c,
          bucket_sizes = replicate (nat c) 0, usedBuckets = 0\<rparr>)"

definition bucket_index :: "('k \<Rightarrow> nat) \<Rightarrow> ('k, 'v) ChainHash \<Rightarrow> 'k \<Rightarrow> nat" where
  \<comment> \<open>\<^verbatim>\<open>getHashCode(key) % capacity\<close>, computed in \<^verbatim>\<open>size_t\<close>\<close>
  "bucket_index h t key = h key mod nat (capacity t)"

fun get_loop :: "'k \<Rightarrow> ('k, 'v) chain \<Rightarrow> error + 'v" where
  "get_loop key [] = Inl KeyNotFound"
| "get_loop key ((k, v) # next) = (if k = key then Inr v else get_loop key next)"

definition get :: "('k \<Rightarrow> nat) \<Rightarrow> ('k, 'v) ChainHash \<Rightarrow> 'k \<Rightarrow> error + 'v" where
  "get h t key = get_loop key (array t ! bucket_index h t key)"

definition size_ch :: "('k, 'v) ChainHash \<Rightarrow> int" where
  "size_ch t = nsize t"

definition bucket_count :: "('k, 'v) ChainHash \<Rightarrow> int" where
  "bucket_count t = capacity t"

definition bucket_size :: "('k, 'v) ChainHash \<Rightarrow> int \<Rightarrow> error + int" where
  "bucket_size t index =
     (if index < 0 \<or> index \<ge> capacity t then Inl IndexOutOfRange
      else Inr (bucket_sizes t ! nat index))"

fun contains_loop :: "'k \<Rightarrow> ('k, 'v) chain \<Rightarrow> bool" where
  "contains_loop key [] = False"
| "contains_loop key ((k, v) # next) = (if k = key then True else contains_loop key next)"

definition contains :: "('k \<Rightarrow> nat) \<Rightarrow> ('k, 'v) ChainHash \<Rightarrow> 'k \<Rightarrow> bool" where
  "contains h t key = contains_loop key (array t ! bucket_index h t key)"

definition fillFactor :: "('k, 'v) ChainHash \<Rightarrow> rat" where
  "fillFactor t = double_div (double_of_int (usedBuckets t)) (double_of_int (capacity t))"

text \<open>
  \<^verbatim>\<open>rehashing\<close>: every node of every old chain, in bucket order and head to tail, is pushed
  on the front of its new chain. \<^verbatim>\<open>new Node*[newCap]()\<close> throws
  \<^verbatim>\<open>std::bad_array_new_length\<close> for a negative length, before anything is changed; the
  operations that can throw return the exception (if any) together with the table as the
  call leaves it. Running out of memory is not modelled.
\<close>

definition rehash_node ::
  "('k \<Rightarrow> nat) \<Rightarrow> int \<Rightarrow> 'k \<times> 'v \<Rightarrow>
   ('k, 'v) chain list \<times> int list \<times> int \<Rightarrow> ('k, 'v) chain list \<times> int list \<times> int" where
  "rehash_node h newCap node acc =
     (case acc of (newArray, new_bucket_sizes, newUsedBuckets) \<Rightarrow>
        let idx = h (fst node) mod nat newCap
        in (newArray[idx := node # newArray ! idx],
            new_bucket_sizes[idx := new_bucket_sizes ! idx + 1],
            if new_bucket_sizes ! idx = 0 then newUsedBuckets + 1 else newUsedBuckets))"

definition new_capacity :: "int \<Rightarrow> int" where
  "new_capacity oldCap =
     (let newCap = int32 (oldCap * 2 + 1)
      in if newCap \<le> oldCap then int32 (oldCap + 1) else newCap)"

definition rehashing :: "('k \<Rightarrow> nat) \<Rightarrow> ('k, 'v) ChainHash \<Rightarrow> error option \<times> ('k, 'v) ChainHash" where
  "rehashing h t =
     (let oldCap = capacity t;
          newCap = new_capacity oldCap
      in if newCap < 0 then (Some BadArrayNewLength, t)
         else case fold (\<lambda>i. fold (rehash_node h newCap) (array t ! i)) [0..<nat oldCap]
                     (replicate (nat newCap) [], replicate (nat newCap) 0, 0) of
                (newArray, new_bucket_sizes, newUsedBuckets) \<Rightarrow>
                  (None, t\<lparr>array := newArray, bucket_sizes := new_bucket_sizes,
                           capacity := newCap, usedBuckets := newUsedBuckets\<rparr>))"

fun set_loop :: "'k \<Rightarrow> 'v \<Rightarrow> ('k, 'v) chain \<Rightarrow> ('k, 'v) chain option" where
  \<comment> \<open>the chain with the value of \<open>key\<close> overwritten, or \<open>None\<close> when the scan finds no such node\<close>
  "set_loop key val [] = None"
| "set_loop key val ((k, v) # next) =
     (if k = key then Some ((k, val) # next)
      else map_option (\<lambda>next'. (k, v) # next') (set_loop key val next))"

definition insert_node :: "('k \<Rightarrow> nat) \<Rightarrow> ('k, 'v) ChainHash \<Rightarrow> 'k \<Rightarrow> 'v \<Rightarrow> ('k, 'v) ChainHash" where
  \<comment> \<open>lines 119--125 of \<^verbatim>\<open>set\<close>: the new node becomes the head of its bucket\<close>
  "insert_node h t key val =
     (let index = bucket_index h t key
      in t\<lparr>array := (array t)[index := (key, val) # array t ! index],
           usedBuckets := (if bucket_sizes t ! index = 0 then usedBuckets t + 1 else usedBuckets t),
           bucket_sizes := (bucket_sizes t)[index := bucket_sizes t ! index + 1],
           nsize := nsize t + 1\<rparr>)"

definition set_ch ::
  "('k \<Rightarrow> nat) \<Rightarrow> ('k, 'v) ChainHash \<Rightarrow> 'k \<Rightarrow> 'v \<Rightarrow> error option \<times> ('k, 'v) ChainHash" where
  "set_ch h t key val =
     (let index = bucket_index h t key
      in case set_loop key val (array t ! index) of
           Some chain' \<Rightarrow> (None, t\<lparr>array := (array t)[index := chain']\<rparr>)
         | None \<Rightarrow>
             let t1 = insert_node h t key val
             in if bucket_sizes t1 ! index > maxColision \<or> fillFactor t1 > maxFillFactor
                then rehashing h t1
                else (None, t1))"

fun remove_loop :: "'k \<Rightarrow> ('k, 'v) chain \<Rightarrow> ('k, 'v) chain option" where
  \<comment> \<open>the chain with the node of \<open>key\<close> unlinked, or \<open>None\<close> when the scan finds no such node\<close>
  "remove_loop key [] = None"
| "remove_loop key ((k, v) # next) =
     (if k = key then Some next
      else map_option (\<lambda>next'. (k, v) # next') (remove_loop key next))"

definition remove_ch :: "('k \<Rightarrow> nat) \<Rightarrow> ('k, 'v) ChainHash \<Rightarrow> 'k \<Rightarrow> bool \<times> ('k, 'v) ChainHash" where
  "remove_ch h t key =
     (let index = bucket_index h t key
      in case remove_loop key (array t ! index) of
           Some chain' \<Rightarrow>
             (True, t\<lparr>array := (array t)[index := chain'],
                      nsize := nsize t - 1,
                      bucket_sizes := (bucket_sizes t)[index := bucket_sizes t ! index - 1],
                      usedBuckets := (if bucket_sizes t ! index - 1 = 0 then usedBuckets t - 1
                                      else usedBuckets t)\<rparr>)
         | None \<Rightarrow> (False, t))"

text \<open>
  A client's use of a table: any sequence of \<^verbatim>\<open>set\<close> and \<^verbatim>\<open>remove\<close> calls. A call of
  \<^verbatim>\<open>set\<close> that throws leaves the table object behind, and the sequence goes on with it.
\<close>

datatype ('k, 'v) operation = Set 'k 'v | Remove 'k

fun apply_op :: "('k \<Rightarrow> nat) \<Rightarrow> ('k, 'v) operation \<Rightarrow> ('k, 'v) ChainHash \<Rightarrow> ('k, 'v) ChainHash" where
  "apply_op h (Set key val) t = snd (set_ch h t key val)"
| "apply_op h (Remove key) t = snd (remove_ch h t key)"

definition run :: "('k \<Rightarrow> nat) \<Rightarrow> ('k, 'v) operation list \<Rightarrow> ('k, 'v) ChainHash \<Rightarrow> ('k, 'v) ChainHash" where
  "run h ops t = fold (apply_op h) ops t"

section \<open>The invariant of the table and its abstraction\<close>

text \<open>
  The data-model invariants: the capacity is a positive \<^verbatim>\<open>int\<close>, both arrays have that
  length, every cached bucket size is the length of its chain, \<^verbatim>\<open>nsize\<close> is the number of
  nodes, \<^verbatim>\<open>usedBuckets\<close> is the number of non-empty chains, every node sits in the bucket
  its key hashes to, and no key occurs twice. The constructor establishes the invariant and
  \<^verbatim>\<open>set\<close>, \<^verbatim>\<open>remove\<close> and \<^verbatim>\<open>rehashing\<close> keep it, so it holds of every table a client
  can build. The table stands for the finite map \<open>lookup t\<close> from keys to values.
\<close>

definition placed :: "('k \<Rightarrow> nat) \<Rightarrow> nat \<Rightarrow> ('k, 'v) chain list \<Rightarrow> bool" where
  "placed h n A \<longleftrightarrow> (\<forall>i < length A. \<forall>e \<in> set (A ! i). h (fst e) mod n = i)"

definition used_count :: "('k, 'v) chain list \<Rightarrow> nat" where
  "used_count A = length (filter (\<lambda>c. c \<noteq> []) A)"

definition entries :: "('k, 'v) ChainHash \<Rightarrow> ('k \<times> 'v) list" where
  "entries t = concat (array t)"

definition lookup :: "('k, 'v) ChainHash \<Rightarrow> 'k \<Rightarrow> 'v option" where
  "lookup t = map_of (entries t)"

definition invar :: "('k \<Rightarrow> nat) \<Rightarrow> ('k, 'v) ChainHash \<Rightarrow> bool" where
  "invar h t \<longleftrightarrow>
     0 < capacity t \<and> capacity t \<le> INT_MAX \<and>
     length (array t) = nat (capacity t) \<and>
     bucket_sizes t = map (\<lambda>c. int (length c)) (array t) \<and>
     nsize t = int (length (entries t)) \<and>
     usedBuckets t = int (used_count (array t)) \<and>
     placed h (nat (capacity t)) (array t) \<and>
     distinct (map fst (entries t))"

text \<open>
  The state of the loop of \<^verbatim>\<open>rehashing\<close>: the new arrays have the new capacity, the new
  sizes are the lengths of the new chains, \<^verbatim>\<open>newUsedBuckets\<close> counts the non-empty ones,
  and every node moved so far sits in the bucket its key hashes to.
\<close>

definition acc_ok :: "('k \<Rightarrow> nat) \<Rightarrow> nat \<Rightarrow> ('k, 'v) chain list \<times> int list \<times> int \<Rightarrow> bool" where
  "acc_ok h n acc \<longleftrightarrow>
     (case acc of (A, S, U) \<Rightarrow>
        length A = n \<and> S = map (\<lambda>c. int (length c)) A \<and> U = int (used_count A) \<and> placed h n A)"

section \<open>An example table\<close>

text \<open>
  A table with natural numbers as keys, hashed by their value, and strings as values: the
  table that a client builds with initial capacity 5 by setting the keys 1, 6, 2 and 11.
\<close>

definition ex_hash :: "nat \<Rightarrow> nat" where
  "ex_hash k = k"

definition ex_table :: "(nat, string) ChainHash" where
  "ex_table = \<lparr>array = [[], [(11, ''k''), (6, ''f''), (1, ''a'')], [(2, ''b'')], [], []],
     nsize = 4, capacity = 5, bucket_sizes = [0, 3, 1, 0, 0], usedBuckets = 2\<rparr>"

section \<open>The bag-of-words builder\<close>

text \<open>
  \<^verbatim>\<open>p2.cpp\<close>. A \<^verbatim>\<open>std::string\<close> is a list of bytes. The program never changes the locale, so
  \<^verbatim>\<open>isalnum\<close> and \<^verbatim>\<open>tolower\<close> are those of the "C" locale: letters and digits are the ASCII
  ones, and a byte above 127 is neither. \<^verbatim>\<open>ss >> word\<close> skips white space and reads up to
  the next white space.
\<close>

definition isspace :: "char \<Rightarrow> bool" where
  "isspace c \<longleftrightarrow> (of_char c :: nat) = 32 \<or> (9 \<le> (of_char c :: nat) \<and> (of_char c :: nat) \<le> 13)"

definition isalnum :: "char \<Rightarrow> bool" where
  "isalnum c \<longleftrightarrow>
     (let n = (of_char c :: nat)
      in (48 \<le> n \<and> n \<le> 57) \<or> (65 \<le> n \<and> n \<le> 90) \<or> (97 \<le> n \<and> n \<le> 122))"

definition tolower :: "char \<Rightarrow> char" where
  "tolower c = (let n = (of_char c :: nat) in if 65 \<le> n \<and> n \<le> 90 then char_of (n + 32) else c)"

definition toLowerCase :: "string \<Rightarrow> string" where
  "toLowerCase str = map tolower str"

fun extract_words :: "string \<Rightarrow> string \<Rightarrow> string list" where
  \<comment> \<open>the successive results of \<^verbatim>\<open>ss >> word\<close>; the first argument is the word being read\<close>
  "extract_words word [] = (if word = [] then [] else [word])"
| "extract_words word (c # cs) =
     (if isspace c then (if word = [] then extract_words [] cs else word # extract_words [] cs)
      else extract_words (word @ [c]) cs)"

fun tokenize_loop :: "string list \<Rightarrow> string list" where
  "tokenize_loop [] = []"
| "tokenize_loop (word # rest) =
     (let word' = filter isalnum word
      in if word' \<noteq> [] then toLowerCase word' # tokenize_loop rest else tokenize_loop rest)"

definition tokenize :: "string \<Rightarrow> string list" where
  "tokenize text = tokenize_loop (extract_words [] text)"

text \<open>
  \<^verbatim>\<open>bagOfWords\<close>. The order in which the \<^verbatim>\<open>unordered_set\<close> of a document's tokens is
  traversed is unspecified; it is the parameter \<open>order\<close>, which lists every token of the
  document once. An exception thrown by the table leaves \<^verbatim>\<open>bagOfWords\<close>.
\<close>

definition add_word ::
  "(string \<Rightarrow> nat) \<Rightarrow> int \<Rightarrow> string \<Rightarrow> (string, int list) ChainHash \<Rightarrow>
   error + (string, int list) ChainHash" where
  "add_word h docIndex word result =
     (if contains h result word
      then case get h result word of
             Inl e \<Rightarrow> Inl e
           | Inr docs \<Rightarrow>
               (case set_ch h result word (docs @ [docIndex]) of
                  (Some e, r) \<Rightarrow> Inl e | (None, r) \<Rightarrow> Inr r)
      else case set_ch h result word [docIndex] of
             (Some e, r) \<Rightarrow> Inl e | (None, r) \<Rightarrow> Inr r)"

fun word_loop ::
  "(string \<Rightarrow> nat) \<Rightarrow> int \<Rightarrow> string list \<Rightarrow> (string, int list) ChainHash \<Rightarrow>
   error + (string, int list) ChainHash" where
  "word_loop h docIndex [] result = Inr result"
| "word_loop h docIndex (word # rest) result =
     (case add_word h docIndex word result of
        Inl e \<Rightarrow> Inl e
      | Inr r \<Rightarrow> word_loop h docIndex rest r)"

fun doc_loop ::
  "(string \<Rightarrow> nat) \<Rightarrow> (string list \<Rightarrow> string list) \<Rightarrow> int \<Rightarrow> string list \<Rightarrow>
   (string, int list) ChainHash \<Rightarrow> error + (string, int list) ChainHash" where
  "doc_loop h order docIndex [] result = Inr result"
| "doc_loop h order docIndex (doc # rest) result =
     (case word_loop h docIndex (order (tokenize doc)) result of
        Inl e \<Rightarrow> Inl e
      | Inr r \<Rightarrow> doc_loop h order (docIndex + 1) rest r)"

definition bagOfWords ::
  "(string \<Rightarrow> nat) \<Rightarrow> (string list \<Rightarrow> string list) \<Rightarrow> string list \<Rightarrow>
   error + (string, int list) ChainHash" where
  "bagOfWords h order documentos = doc_loop h order 0 documentos (ChainHash_init 13)"

definition documentos :: "string list" where
  \<comment> \<open>the four documents of \<^verbatim>\<open>main\<close>; the accented letter is two bytes in UTF-8\<close>
  "documentos =
     [''La casa es grande'',
      ''El gato est'' @ [CHR 0xC3, CHR 0xA1] @ '' en la casa'',
      ''La casa es bonita y grande'',
      ''El sol brilla sobre la casa'']"

text \<open>
  What the index is expected to hold for a word: the indices, counted from \<open>docIndex\<close>, of
  the documents whose tokens include the word, in increasing order.
\<close>

fun doc_indices :: "string \<Rightarrow> int \<Rightarrow> string list \<Rightarrow> int list" where
  "doc_indices w docIndex [] = []"
| "doc_indices w docIndex (doc # rest) =
     (if w \<in> set (tokenize doc) then docIndex # doc_indices w (docIndex + 1) rest
      else doc_indices w (docIndex + 1) rest)"

definition ex_string_hash :: "string \<Rightarrow> nat" where
  \<comment> \<open>a simple hash of strings (the sum of the bytes), for concrete runs of the builder\<close>
  "ex_string_hash s = sum_list (map of_char s)"

section \<open>A large table at the fill-factor threshold\<close>

text \<open>
  \<open>fill_table m\<close> is the table with \<open>16777216\<close> buckets (\<open>2 ^ 24\<close>) that holds the keys
  \<open>0, \<dots>, m - 1\<close>, hashed by their value, each alone in its bucket.
\<close>

definition fill_cap :: nat where
  "fill_cap = 16777216"

definition fill_table :: "nat \<Rightarrow> (nat, string) ChainHash" where
  "fill_table m =
     \<lparr>array = map (\<lambda>i. if i < m then [(i, ''v'')] else []) [0..<fill_cap],
      nsize = int m, capacity = int fill_cap,
      bucket_sizes = map (\<lambda>i. if i < m then 1 else 0) [0..<fill_cap],
      usedBuckets = int m\<rparr>"

section \<open>A large table at the capacity where doubling overflows\<close>

text \<open>
  \<open>guard_table\<close> is the table with \<open>1073741824\<close> buckets (\<open>2 ^ 30\<close>) that holds the keys
  \<open>0\<close>, \<open>2 ^ 30\<close> and \<open>2 ^ 31\<close>, hashed by their value: all three are in bucket 0.
  \<open>bucket0_table chain\<close> is the table of that size whose only chain is \<open>chain\<close>, in
  bucket 0.
\<close>

definition guard_cap :: nat where
  "guard_cap = 1073741824"

definition bucket0_table :: "(nat, string) chain \<Rightarrow> (nat, string) ChainHash" where
  "bucket0_table chain =
     \<lparr>array = chain # replicate (guard_cap - 1) [],
      nsize = int (length chain), capacity = int guard_cap,
      bucket_sizes = int (length chain) # replicate (guard_cap - 1) 0,
      usedBuckets = (if chain = [] then 0 else 1)\<rparr>"

definition guard_table :: "(nat, string) ChainHash" where
  "guard_table = bucket0_table [(2 * guard_cap, ''c''), (guard_cap, ''b''), (0, ''a'')]"

section \<open>Properties that hold for every table value\<close>

lemma contains_loop_iff: "contains_loop key c \<longleftrightarrow> key \<in> fst ` set c"
  by (induction c) auto

lemma get_loop_map_of:
  "get_loop key c = (case map_of c key of None \<Rightarrow> Inl KeyNotFound | Some v \<Rightarrow> Inr v)"
  by (induction c) auto

lemma get_loop_KeyNotFound_iff: "get_loop key c = Inl KeyNotFound \<longleftrightarrow> \<not> contains_loop key c"
  by (induction key c rule: get_loop.induct) auto

lemma get_loop_found:
  "contains_loop key c \<Longrightarrow> \<exists>v. get_loop key c = Inr v \<and> (key, v) \<in> set c"
  by (induction key c rule: get_loop.induct) (auto split: if_splits)

lemma get_loop_error: "get_loop key c = Inl e \<Longrightarrow> e = KeyNotFound"
  by (induction key c rule: get_loop.induct) (auto split: if_splits)

lemma remove_loop_None_iff: "remove_loop key c = None \<longleftrightarrow> \<not> contains_loop key c"
  by (induction key c rule: remove_loop.induct) auto

lemma set_loop_None_iff: "set_loop key val c = None \<longleftrightarrow> \<not> contains_loop key c"
  by (induction key val c rule: set_loop.induct) auto

text \<open>
  Claim C7. For every table and key, \<open>get\<close> raises \<open>KeyNotFound\<close> if and only if
  \<open>contains\<close> is false (and it raises nothing else); when \<open>contains\<close> is true, \<open>get\<close>
  returns, without error, the value of a node of the key's bucket that carries the key.
\<close>

theorem get_KeyNotFound_iff_not_contains:
  "(get h t key = Inl KeyNotFound \<longleftrightarrow> \<not> contains h t key) \<and>
   (\<forall>e. get h t key = Inl e \<longrightarrow> e = KeyNotFound) \<and>
   (contains h t key \<longrightarrow>
      (\<exists>v. get h t key = Inr v \<and> (key, v) \<in> set (array t ! bucket_index h t key)))"
  unfolding get_def contains_def
  using get_loop_KeyNotFound_iff get_loop_found get_loop_error by fast

theorem get_KeyNotFound_iff_not_contains_witness:
  "contains (\<lambda>k::nat. k) \<lparr>array = [[], [(1, ''a'')]], nsize = 1, capacity = 2,
       bucket_sizes = [0, 1], usedBuckets = 1\<rparr> 1 \<and>
   get (\<lambda>k::nat. k) \<lparr>array = [[], [(1, ''a'')]], nsize = 1, capacity = 2,
       bucket_sizes = [0, 1], usedBuckets = 1\<rparr> 1 = Inr ''a'' \<and>
   \<not> contains (\<lambda>k::nat. k) \<lparr>array = [[], [(1, ''a'')]], nsize = 1, capacity = 2,
       bucket_sizes = [0, 1], usedBuckets = 1\<rparr> 3 \<and>
   get (\<lambda>k::nat. k) \<lparr>array = [[], [(1, ''a'')]], nsize = 1, capacity = 2,
       bucket_sizes = [0, 1], usedBuckets = 1\<rparr> 3 = Inl KeyNotFound"
  using get_KeyNotFound_iff_not_contains [of "\<lambda>k::nat. k"
      "\<lparr>array = [[], [(1, ''a'')]], nsize = 1, capacity = 2,
        bucket_sizes = [0, 1], usedBuckets = 1\<rparr>" 1]
  by (simp add: get_def contains_def bucket_index_def)

text \<open>
  Claim C10. For every table and every key that is not present, \<open>remove\<close> returns false and
  the table it leaves is the table it was given: every field, hence every counter and the
  contents and order of every chain, is unchanged.
\<close>

theorem remove_absent_unchanged:
  "\<not> contains h t key \<Longrightarrow> remove_ch h t key = (False, t)"
  by (simp add: remove_ch_def contains_def remove_loop_None_iff [symmetric])

theorem remove_absent_unchanged_witness:
  "\<not> contains (\<lambda>k::nat. k) \<lparr>array = [[], [(1, ''a'')]], nsize = 1, capacity = 2,
       bucket_sizes = [0, 1], usedBuckets = 1\<rparr> 3 \<and>
   remove_ch (\<lambda>k::nat. k) \<lparr>array = [[], [(1, ''a'')]], nsize = 1, capacity = 2,
       bucket_sizes = [0, 1], usedBuckets = 1\<rparr> 3 =
     (False, \<lparr>array = [[], [(1, ''a'')]], nsize = 1, capacity = 2,
       bucket_sizes = [0, 1], usedBuckets = 1\<rparr>)"
  using remove_absent_unchanged [of "\<lambda>k::nat. k"
      "\<lparr>array = [[], [(1, ''a'')]], nsize = 1, capacity = 2,
        bucket_sizes = [0, 1], usedBuckets = 1\<rparr>" 3]
  by (simp add: contains_def bucket_index_def)

section \<open>Lists of chains\<close>

lemma mset_concat_update:
  "i < length A \<Longrightarrow> mset (concat (A[i := c])) + mset (A ! i) = mset (concat A) + mset c"
  by (induction A arbitrary: i) (auto split: nat.splits)

lemma length_concat_update:
  "i < length A \<Longrightarrow> length (concat (A[i := c])) + length (A ! i) = length (concat A) + length c"
  using mset_concat_update [of i A c, THEN arg_cong, of size] by simp

lemma used_count_update:
  "i < length A \<Longrightarrow>
   used_count (A[i := c]) + (if A ! i \<noteq> [] then 1 else 0) = used_count A + (if c \<noteq> [] then 1 else 0)"
  unfolding used_count_def
proof (induction A arbitrary: i)
  case Nil
  then show ?case by simp
next
  case (Cons a A)
  show ?case
  proof (cases i)
    case 0
    then show ?thesis by simp
  next
    case (Suc j)
    with Cons.prems have "j < length A" by simp
    from Cons.IH [OF this] Suc show ?thesis by (auto split: if_splits)
  qed
qed

lemma placed_update:
  "placed h n A \<Longrightarrow> i < length A \<Longrightarrow> (\<forall>e \<in> set c. h (fst e) mod n = i) \<Longrightarrow> placed h n (A[i := c])"
  unfolding placed_def by (auto simp: nth_list_update)

lemma placed_key_bucket:
  assumes "placed h n A" "e \<in> set (concat A)"
  shows "h (fst e) mod n < length A \<and> e \<in> set (A ! (h (fst e) mod n))"
proof -
  from assms(2) obtain c where c: "c \<in> set A" "e \<in> set c" by auto
  from c(1) obtain i where "i < length A" "A ! i = c" by (auto simp: in_set_conv_nth)
  with c(2) have i: "i < length A" "e \<in> set (A ! i)" by simp_all
  with assms(1) have "h (fst e) mod n = i" unfolding placed_def by blast
  with i show ?thesis by simp
qed

lemma distinct_chain:
  "distinct (map fst (concat A)) \<Longrightarrow> i < length A \<Longrightarrow> distinct (map fst (A ! i))"
  by (induction A arbitrary: i) (auto split: nat.splits simp: nth_Cons)

lemma map_of_concat_bucket:
  assumes "placed h n A" "distinct (map fst (concat A))" "h k mod n < length A"
  shows "map_of (concat A) k = map_of (A ! (h k mod n)) k"
proof (cases "map_of (A ! (h k mod n)) k")
  case None
  have "k \<notin> fst ` set (concat A)"
  proof
    assume "k \<in> fst ` set (concat A)"
    then obtain e where e: "e \<in> set (concat A)" "fst e = k" by auto
    from placed_key_bucket [OF assms(1) e(1)] e(2) have "e \<in> set (A ! (h k mod n))" by simp
    with e(2) have "k \<in> fst ` set (A ! (h k mod n))" by force
    with None show False by (simp add: map_of_eq_None_iff)
  qed
  then have "map_of (concat A) k = None" using map_of_eq_None_iff by metis
  with None show ?thesis by simp
next
  case (Some v)
  then have "(k, v) \<in> set (A ! (h k mod n))" by (rule map_of_SomeD)
  with assms(3) have "(k, v) \<in> set (concat A)" using nth_mem by fastforce
  with assms(2) Some show ?thesis by simp
qed

section \<open>The scans of one chain\<close>

lemma mset_keys_update:
  assumes "i < length A"
  shows "mset (map fst (concat (A[i := c]))) + mset (map fst (A ! i)) =
         mset (map fst (concat A)) + mset (map fst c)"
proof -
  have "image_mset fst (mset (concat (A[i := c])) + mset (A ! i)) =
        image_mset fst (mset (concat A) + mset c)"
    using mset_concat_update [OF assms, of c] by simp
  then show ?thesis by simp
qed

lemma set_loop_Some:
  "set_loop key val c = Some c' \<Longrightarrow>
     map fst c' = map fst c \<and> length c' = length c \<and> map_of c' = (map_of c)(key \<mapsto> val)"
proof (induction key val c arbitrary: c' rule: set_loop.induct)
  case (1 key val)
  then show ?case by simp
next
  case (2 key val k v "next")
  show ?case
  proof (cases "k = key")
    case True
    with 2 show ?thesis by auto
  next
    case False
    with "2.prems" obtain n' where n': "set_loop key val next = Some n'" "c' = (k, v) # n'"
      by auto
    from "2.IH" [OF False n'(1)] n'(2) False show ?thesis by auto
  qed
qed

lemma remove_loop_mset:
  "remove_loop key c = Some c' \<Longrightarrow> \<exists>v. mset c = add_mset (key, v) (mset c')"
  by (induction key c arbitrary: c' rule: remove_loop.induct) (auto split: if_splits)

lemma remove_loop_map_of:
  "remove_loop key c = Some c' \<Longrightarrow> distinct (map fst c) \<Longrightarrow> map_of c' = (map_of c)(key := None)"
proof (induction key c arbitrary: c' rule: remove_loop.induct)
  case (1 key)
  then show ?case by simp
next
  case (2 key k v "next")
  show ?case
  proof (cases "k = key")
    case True
    with "2.prems" have c': "c' = next" and "key \<notin> fst ` set next" by auto
    then have "map_of next key = None" by (simp add: map_of_eq_None_iff)
    with True c' show ?thesis by (auto simp: fun_eq_iff)
  next
    case False
    with "2.prems" obtain n' where n': "remove_loop key next = Some n'" "c' = (k, v) # n'"
      by auto
    from "2.prems" have "distinct (map fst next)" by simp
    from "2.IH" [OF False n'(1) this] n'(2) False show ?thesis by (auto simp: fun_eq_iff)
  qed
qed

lemma invar_index: "invar h t \<Longrightarrow> bucket_index h t key < length (array t)"
  by (simp add: invar_def bucket_index_def)

lemma lookup_bucket:
  assumes "invar h t"
  shows "lookup t key = map_of (array t ! bucket_index h t key) key"
  using map_of_concat_bucket [of h "nat (capacity t)" "array t" key] assms invar_index [OF assms, of key]
  by (simp add: lookup_def entries_def invar_def bucket_index_def)

lemma get_lookup:
  "invar h t \<Longrightarrow> get h t key = (case lookup t key of None \<Rightarrow> Inl KeyNotFound | Some v \<Rightarrow> Inr v)"
  by (simp add: get_def get_loop_map_of lookup_bucket)

lemma contains_lookup: "invar h t \<Longrightarrow> contains h t key \<longleftrightarrow> lookup t key \<noteq> None"
  by (simp add: contains_def contains_loop_iff lookup_bucket map_of_eq_None_iff)

lemma invar_init: "initialCapacity \<le> INT_MAX \<Longrightarrow> invar h (ChainHash_init initialCapacity)"
  by (auto simp: invar_def ChainHash_init_def Let_def placed_def entries_def used_count_def INT_MAX_def)

lemma lookup_init: "lookup (ChainHash_init initialCapacity) = Map.empty"
  by (simp add: lookup_def entries_def ChainHash_init_def Let_def)

section \<open>Replacing one bucket\<close>

lemma invar_replace_bucket:
  assumes inv: "invar h t"
    and i: "i < length (array t)"
    and pl: "\<forall>e \<in> set c. h (fst e) mod nat (capacity t) = i"
    and di: "distinct (map fst (concat ((array t)[i := c])))"
    and A': "array t' = (array t)[i := c]"
    and cap: "capacity t' = capacity t"
    and n: "nsize t' + int (length (array t ! i)) = nsize t + int (length c)"
    and bs: "bucket_sizes t' = (bucket_sizes t)[i := int (length c)]"
    and u: "usedBuckets t' + (if array t ! i \<noteq> [] then 1 else 0) = usedBuckets t + (if c \<noteq> [] then 1 else 0)"
  shows "invar h t'"
proof -
  have 1: "bucket_sizes t' = map (\<lambda>c. int (length c)) (array t')"
    using inv bs A' by (simp add: invar_def map_update)
  have 2: "nsize t' = int (length (entries t'))"
    using inv n A' length_concat_update [OF i, of c] by (simp add: invar_def entries_def)
  have 3: "usedBuckets t' = int (used_count (array t'))"
    using inv u A' used_count_update [OF i, of c] by (simp add: invar_def split: if_splits)
  have 4: "placed h (nat (capacity t')) (array t')"
    using inv A' cap placed_update [OF _ i pl] by (simp add: invar_def)
  show ?thesis
    unfolding invar_def using inv 1 2 3 4 di A' cap by (simp add: invar_def entries_def)
qed

lemma lookup_replace_bucket:
  assumes inv: "invar h t" and inv': "invar h t'"
    and A': "array t' = (array t)[i := c]"
    and cap: "capacity t' = capacity t"
    and i: "i < length (array t)"
  shows "lookup t' key = (if bucket_index h t key = i then map_of c key else lookup t key)"
  using lookup_bucket [OF inv, of key] lookup_bucket [OF inv', of key] A' cap i
  by (simp add: bucket_index_def)

lemma bucket_keys_hash:
  "invar h t \<Longrightarrow> i < length (array t) \<Longrightarrow> e \<in> set (array t ! i) \<Longrightarrow> h (fst e) mod nat (capacity t) = i"
  by (simp add: invar_def placed_def)

lemma bucket_size_length:
  "invar h t \<Longrightarrow> i < length (array t) \<Longrightarrow> bucket_sizes t ! i = int (length (array t ! i))"
  by (simp add: invar_def)

lemma overwrite_invar_lookup:
  assumes inv: "invar h t" and sl: "set_loop key val (array t ! bucket_index h t key) = Some c'"
  defines "t' \<equiv> t\<lparr>array := (array t)[bucket_index h t key := c']\<rparr>"
  shows "invar h t' \<and> lookup t' = (lookup t)(key \<mapsto> val)"
proof -
  let ?i = "bucket_index h t key"
  have i: "?i < length (array t)" using inv by (rule invar_index)
  from set_loop_Some [OF sl] have c': "map fst c' = map fst (array t ! ?i)"
    "length c' = length (array t ! ?i)" "map_of c' = (map_of (array t ! ?i))(key \<mapsto> val)" by auto
  have keys: "map (map fst) ((array t)[?i := c']) = map (map fst) (array t)"
    using c'(1) i by (simp add: map_update list_update_same_conv)
  have di: "distinct (map fst (concat ((array t)[?i := c'])))"
    using inv keys by (simp add: invar_def entries_def map_concat)
  have pl: "\<forall>e \<in> set c'. h (fst e) mod nat (capacity t) = ?i"
  proof
    fix e assume "e \<in> set c'"
    then have "fst e \<in> set (map fst c')" by simp
    with c'(1) obtain e' where "e' \<in> set (array t ! ?i)" "fst e' = fst e" by auto
    with bucket_keys_hash [OF inv i] show "h (fst e) mod nat (capacity t) = ?i" by metis
  qed
  have ne: "c' \<noteq> [] \<longleftrightarrow> array t ! ?i \<noteq> []" using c'(2) by auto
  have inv': "invar h t'"
    by (rule invar_replace_bucket [OF inv i pl di])
       (use i c'(2) ne bucket_size_length [OF inv i, symmetric] in \<open>simp_all add: t'_def\<close>)
  have "lookup t' k = ((lookup t)(key \<mapsto> val)) k" for k
    using lookup_replace_bucket [OF inv inv' _ _ i, of c' k] c'(3) lookup_bucket [OF inv, of k]
    by (auto simp: t'_def bucket_index_def)
  with inv' show ?thesis by (simp add: fun_eq_iff)
qed

lemma insert_node_invar_lookup:
  assumes inv: "invar h t" and nc: "\<not> contains h t key"
  shows "invar h (insert_node h t key val) \<and> lookup (insert_node h t key val) = (lookup t)(key \<mapsto> val)
     \<and> capacity (insert_node h t key val) = capacity t"
proof -
  let ?i = "bucket_index h t key"
  let ?c = "(key, val) # array t ! ?i"
  let ?t' = "insert_node h t key val"
  have i: "?i < length (array t)" using inv by (rule invar_index)
  have absent: "key \<notin> set (map fst (entries t))"
    using nc contains_lookup [OF inv, of key] by (simp add: lookup_def map_of_eq_None_iff)
  have "mset (map fst (concat ((array t)[?i := ?c]))) = mset (key # map fst (entries t))"
    using mset_keys_update [OF i, of ?c] by (simp add: entries_def)
  then have "distinct (map fst (concat ((array t)[?i := ?c]))) = distinct (key # map fst (entries t))"
    by (rule mset_eq_imp_distinct_iff)
  with inv absent have di: "distinct (map fst (concat ((array t)[?i := ?c])))"
    by (simp add: invar_def)
  have pl: "\<forall>e \<in> set ?c. h (fst e) mod nat (capacity t) = ?i"
    using bucket_keys_hash [OF inv i] by (auto simp: bucket_index_def)
  have inv': "invar h ?t'"
    by (rule invar_replace_bucket [OF inv i pl di])
       (use inv i bucket_size_length [OF inv i] in \<open>simp_all add: insert_node_def Let_def add.commute\<close>)
  have "lookup ?t' k = ((lookup t)(key \<mapsto> val)) k" for k
    using lookup_replace_bucket [OF inv inv' _ _ i, of ?c k] lookup_bucket [OF inv, of k]
    by (auto simp: insert_node_def Let_def bucket_index_def)
  with inv' show ?thesis by (simp add: fun_eq_iff insert_node_def Let_def)
qed

lemma remove_invar_lookup:
  assumes inv: "invar h t"
  shows "invar h (snd (remove_ch h t key)) \<and> lookup (snd (remove_ch h t key)) = (lookup t)(key := None)
     \<and> fst (remove_ch h t key) = (lookup t key \<noteq> None)
     \<and> capacity (snd (remove_ch h t key)) = capacity t"
proof (cases "remove_loop key (array t ! bucket_index h t key)")
  case None
  then have "\<not> contains h t key" by (simp add: contains_def remove_loop_None_iff)
  then have "lookup t key = None" using contains_lookup [OF inv] by simp
  then have "(lookup t)(key := None) = lookup t" by (auto simp: fun_eq_iff)
  with None inv \<open>lookup t key = None\<close> show ?thesis by (simp add: remove_ch_def)
next
  case (Some c')
  let ?i = "bucket_index h t key"
  let ?t' = "snd (remove_ch h t key)"
  have i: "?i < length (array t)" using inv by (rule invar_index)
  from remove_loop_mset [OF Some] obtain v where v: "mset (array t ! ?i) = add_mset (key, v) (mset c')"
    by blast
  from arg_cong [OF v, of size] have len: "length (array t ! ?i) = Suc (length c')"
    by simp
  have "mset (key # map fst (concat ((array t)[?i := c']))) = mset (map fst (entries t))"
    using mset_keys_update [OF i, of c'] arg_cong [OF v, of "image_mset fst"] by (simp add: entries_def)
  then have "distinct (key # map fst (concat ((array t)[?i := c']))) = distinct (map fst (entries t))"
    by (rule mset_eq_imp_distinct_iff)
  with inv have di: "distinct (map fst (concat ((array t)[?i := c'])))" by (simp add: invar_def)
  have sub: "set c' \<subseteq> set (array t ! ?i)" using arg_cong [OF v, of set_mset] by auto
  have pl: "\<forall>e \<in> set c'. h (fst e) mod nat (capacity t) = ?i"
    using bucket_keys_hash [OF inv i] sub by blast
  have inv': "invar h ?t'"
    by (rule invar_replace_bucket [OF inv i pl di])
       (use inv i Some len bucket_size_length [OF inv i] in \<open>auto simp: remove_ch_def Let_def\<close>)
  have dc: "distinct (map fst (array t ! ?i))"
    using inv distinct_chain [OF _ i] by (simp add: invar_def entries_def)
  have "lookup ?t' k = ((lookup t)(key := None)) k" for k
    using lookup_replace_bucket [OF inv inv' _ _ i, of c' k] lookup_bucket [OF inv, of k]
      remove_loop_map_of [OF Some dc] Some
    by (auto simp: remove_ch_def Let_def bucket_index_def)
  moreover have "contains h t key"
    using Some remove_loop_None_iff [of key "array t ! ?i"] by (simp add: contains_def)
  then have "lookup t key \<noteq> None"
    using contains_lookup [OF inv, of key] by simp
  ultimately show ?thesis using inv' Some by (simp add: fun_eq_iff remove_ch_def Let_def)
qed

section \<open>Rehashing\<close>

lemma new_capacity_small:
  "0 < c \<Longrightarrow> c < 1073741824 \<Longrightarrow> new_capacity c = 2 * c + 1"
  by (simp add: new_capacity_def int32_def Let_def)

lemma int32_id: "- 2147483648 \<le> x \<Longrightarrow> x \<le> 2147483647 \<Longrightarrow> int32 x = x"
  by (simp add: int32_def)

lemma int32_wrap:
  assumes "2147483648 \<le> x" "x < 6442450944"
  shows "int32 x = x - 4294967296"
proof -
  have "(x + 2147483648) mod 4294967296 = (x + 2147483648 - 4294967296) mod 4294967296"
    using mod_diff_right_eq [of "x + 2147483648" 4294967296 4294967296] by simp
  also have "\<dots> = x + 2147483648 - 4294967296"
    by (rule mod_pos_pos_trivial) (use assms in simp_all)
  finally show ?thesis by (simp add: int32_def)
qed

lemma new_capacity_guard:
  assumes "1073741824 \<le> c" "c < INT_MAX"
  shows "new_capacity c = c + 1"
proof -
  have "int32 (c * 2 + 1) = c * 2 + 1 - 4294967296"
    by (rule int32_wrap) (use assms in \<open>simp_all add: INT_MAX_def\<close>)
  moreover have "int32 (c + 1) = c + 1"
    by (rule int32_id) (use assms in \<open>simp_all add: INT_MAX_def\<close>)
  ultimately show ?thesis using assms by (simp add: new_capacity_def Let_def INT_MAX_def)
qed

lemma new_capacity_INT_MAX: "new_capacity INT_MAX = - 2147483648"
  by (simp add: new_capacity_def int32_def Let_def INT_MAX_def)

lemma new_capacity_cases:
  assumes "0 < c" "c \<le> INT_MAX"
  shows "(c < INT_MAX \<longrightarrow> c < new_capacity c \<and> new_capacity c \<le> INT_MAX) \<and>
         (c = INT_MAX \<longrightarrow> new_capacity c < 0)"
proof (cases "c < 1073741824")
  case True
  with assms new_capacity_small [of c] show ?thesis by (simp add: INT_MAX_def)
next
  case False
  show ?thesis
  proof (cases "c < INT_MAX")
    case True
    with False new_capacity_guard [of c] show ?thesis by simp
  next
    case False
    with assms have "c = INT_MAX" by simp
    then show ?thesis by (simp add: new_capacity_INT_MAX)
  qed
qed

lemma rehash_node_ok:
  assumes n: "0 < n" and ok: "acc_ok h n acc"
  shows "acc_ok h n (rehash_node h (int n) e acc) \<and>
         mset (concat (fst (rehash_node h (int n) e acc))) = add_mset e (mset (concat (fst acc)))"
proof -
  obtain A S U where acc: "acc = (A, S, U)" by (cases acc)
  let ?i = "h (fst e) mod n"
  from ok acc have A: "length A = n" "S = map (\<lambda>c. int (length c)) A" "U = int (used_count A)"
    "placed h n A" by (simp_all add: acc_ok_def)
  have i: "?i < length A" using n A(1) by simp
  have 1: "placed h n (A[?i := e # A ! ?i])"
  proof (rule placed_update [OF A(4) i])
    show "\<forall>x \<in> set (e # A ! ?i). h (fst x) mod n = ?i"
      using A(4) i by (auto simp: placed_def)
  qed
  have 2: "S[?i := S ! ?i + 1] = map (\<lambda>c. int (length c)) (A[?i := e # A ! ?i])"
    using A(2) i by (simp add: map_update add.commute)
  have 3: "(if S ! ?i = 0 then U + 1 else U) = int (used_count (A[?i := e # A ! ?i]))"
    using used_count_update [OF i, of "e # A ! ?i"] A(2,3) i by (simp split: if_splits)
  have 4: "mset (concat (A[?i := e # A ! ?i])) = add_mset e (mset (concat A))"
    using mset_concat_update [OF i, of "e # A ! ?i"] by simp
  show ?thesis
    using 1 2 3 4 A(1) by (simp add: acc rehash_node_def acc_ok_def Let_def)
qed

lemma fold_rehash_node_ok:
  assumes n: "0 < n"
  shows "acc_ok h n acc \<Longrightarrow>
     acc_ok h n (fold (rehash_node h (int n)) es acc) \<and>
     mset (concat (fst (fold (rehash_node h (int n)) es acc))) = mset es + mset (concat (fst acc))"
proof (induction es arbitrary: acc)
  case Nil
  then show ?case by simp
next
  case (Cons e es)
  from rehash_node_ok [OF n Cons.prems, of e]
  have ok: "acc_ok h n (rehash_node h (int n) e acc)"
    and ms: "mset (concat (fst (rehash_node h (int n) e acc))) = add_mset e (mset (concat (fst acc)))"
    by simp_all
  from Cons.IH [OF ok] ms show ?case by simp
qed

lemma fold_buckets_concat:
  "m \<le> length A \<Longrightarrow> fold (\<lambda>i. fold f (A ! i)) [0..<m] acc = fold f (concat (take m A)) acc"
proof (induction m)
  case 0
  show ?case by simp
next
  case (Suc m)
  then have m: "m < length A" and IH: "fold (\<lambda>i. fold f (A ! i)) [0..<m] acc = fold f (concat (take m A)) acc"
    by simp_all
  have "concat (take (Suc m) A) = concat (take m A) @ A ! m"
    by (simp add: take_Suc_conv_app_nth [OF m])
  then have "fold f (concat (take (Suc m) A)) acc = fold f (A ! m) (fold f (concat (take m A)) acc)"
    by simp
  moreover have "fold (\<lambda>i. fold f (A ! i)) [0..<Suc m] acc =
      fold f (A ! m) (fold (\<lambda>i. fold f (A ! i)) [0..<m] acc)"
    by simp
  ultimately show ?case using IH by simp
qed

lemma acc_ok_empty: "acc_ok h n (replicate n [], replicate n 0, 0)"
  by (simp add: acc_ok_def placed_def used_count_def)

lemma map_of_mset_eq:
  assumes "mset xs = mset ys" "distinct (map fst xs)"
  shows "map_of xs = map_of ys"
proof -
  from assms(1) have "mset (map fst xs) = mset (map fst ys)" by simp
  with assms(2) have "distinct (map fst ys)" using mset_eq_imp_distinct_iff by blast
  moreover from assms(1) have "set xs = set ys" by (rule mset_eq_setD)
  ultimately show ?thesis using assms(2) by (simp add: map_of_inject_set)
qed

lemma rehashing_throws:
  assumes "invar h t" "capacity t = INT_MAX"
  shows "rehashing h t = (Some BadArrayNewLength, t)"
  using assms by (simp add: rehashing_def Let_def new_capacity_INT_MAX)

lemma rehashing_ok:
  assumes inv: "invar h t" and cap: "capacity t < INT_MAX"
  shows "fst (rehashing h t) = None \<and>
         invar h (snd (rehashing h t)) \<and>
         capacity (snd (rehashing h t)) = new_capacity (capacity t) \<and>
         mset (entries (snd (rehashing h t))) = mset (entries t) \<and>
         nsize (snd (rehashing h t)) = nsize t"
proof -
  let ?n = "new_capacity (capacity t)"
  have c0: "0 < capacity t" "capacity t \<le> INT_MAX" using inv by (simp_all add: invar_def)
  from new_capacity_cases [OF c0] cap have n: "capacity t < ?n" "?n \<le> INT_MAX" by simp_all
  with c0 have npos: "0 < nat ?n" by simp
  let ?acc = "fold (\<lambda>i. fold (rehash_node h ?n) (array t ! i)) [0..<nat (capacity t)]
                (replicate (nat ?n) [], replicate (nat ?n) 0, 0)"
  have len: "length (array t) = nat (capacity t)" using inv by (simp add: invar_def)
  have nn: "int (nat ?n) = ?n" using n c0 by simp
  have "?acc = fold (rehash_node h ?n) (concat (take (nat (capacity t)) (array t)))
                (replicate (nat ?n) [], replicate (nat ?n) 0, 0)"
    using len by (simp add: fold_buckets_concat)
  then have acc: "?acc = fold (rehash_node h ?n) (entries t)
                (replicate (nat ?n) [], replicate (nat ?n) 0, 0)"
    using len by (simp add: entries_def)
  obtain A S U where ASU: "?acc = (A, S, U)" by (cases ?acc)
  from fold_rehash_node_ok [OF npos acc_ok_empty, of h "entries t", unfolded nn]
  have "acc_ok h (nat ?n) ?acc \<and> mset (concat (fst ?acc)) = mset (entries t)"
    unfolding acc by simp
  then have ok: "acc_ok h (nat ?n) (A, S, U)" and ms: "mset (concat A) = mset (entries t)"
    unfolding ASU by simp_all
  have res: "rehashing h t = (None, t\<lparr>array := A, bucket_sizes := S, capacity := ?n, usedBuckets := U\<rparr>)"
    using n c0 ASU by (simp add: rehashing_def Let_def)
  have "mset (map fst (concat A)) = mset (map fst (entries t))" using ms by simp
  then have "distinct (map fst (concat A)) = distinct (map fst (entries t))"
    by (rule mset_eq_imp_distinct_iff)
  with inv have di: "distinct (map fst (concat A))" by (simp add: invar_def)
  have "length (concat A) = length (entries t)" using arg_cong [OF ms, of size] by simp
  with inv have ns: "nsize t = int (length (concat A))" by (simp add: invar_def)
  have "invar h (t\<lparr>array := A, bucket_sizes := S, capacity := ?n, usedBuckets := U\<rparr>)"
    using ok di ns n c0 by (simp add: invar_def acc_ok_def entries_def)
  with res ms show ?thesis by (simp add: entries_def)
qed

lemma rehashing_invar_lookup:
  assumes inv: "invar h t"
  shows "invar h (snd (rehashing h t)) \<and> lookup (snd (rehashing h t)) = lookup t \<and>
         capacity t \<le> capacity (snd (rehashing h t))"
proof (cases "capacity t < INT_MAX")
  case True
  from rehashing_ok [OF inv True] have r: "invar h (snd (rehashing h t))"
    "mset (entries (snd (rehashing h t))) = mset (entries t)"
    "capacity (snd (rehashing h t)) = new_capacity (capacity t)" by simp_all
  have "distinct (map fst (entries (snd (rehashing h t))))" using r(1) by (simp add: invar_def)
  from map_of_mset_eq [OF r(2) this] have "lookup (snd (rehashing h t)) = lookup t"
    by (simp add: lookup_def)
  moreover have "capacity t \<le> capacity (snd (rehashing h t))"
    using new_capacity_cases [of "capacity t"] inv True r(3) by (simp add: invar_def)
  ultimately show ?thesis using r(1) by simp
next
  case False
  with inv have "capacity t = INT_MAX" by (simp add: invar_def)
  from rehashing_throws [OF inv this] inv show ?thesis by simp
qed

section \<open>Setting a key, and sequences of operations\<close>

lemma set_ch_overwrite:
  assumes "set_loop key val (array t ! bucket_index h t key) = Some c'"
  shows "set_ch h t key val = (None, t\<lparr>array := (array t)[bucket_index h t key := c']\<rparr>)"
  using assms by (simp add: set_ch_def Let_def)

lemma set_ch_present:
  assumes "contains h t key"
  shows "\<exists>c'. set_ch h t key val = (None, t\<lparr>array := (array t)[bucket_index h t key := c']\<rparr>)"
proof -
  from assms obtain c' where "set_loop key val (array t ! bucket_index h t key) = Some c'"
    using set_loop_None_iff [of key val "array t ! bucket_index h t key"]
    by (auto simp: contains_def)
  from set_ch_overwrite [OF this] show ?thesis by blast
qed

lemma set_ch_insert:
  assumes "\<not> contains h t key"
  shows "set_ch h t key val =
     (let t1 = insert_node h t key val
      in if bucket_sizes t1 ! bucket_index h t key > maxColision \<or> fillFactor t1 > maxFillFactor
         then rehashing h t1 else (None, t1))"
proof -
  from assms have "set_loop key val (array t ! bucket_index h t key) = None"
    by (simp add: contains_def set_loop_None_iff)
  then show ?thesis by (simp add: set_ch_def Let_def)
qed

lemma set_ch_invar_lookup:
  assumes inv: "invar h t"
  shows "invar h (snd (set_ch h t key val)) \<and>
         lookup (snd (set_ch h t key val)) = (lookup t)(key \<mapsto> val) \<and>
         capacity t \<le> capacity (snd (set_ch h t key val))"
proof (cases "set_loop key val (array t ! bucket_index h t key)")
  case (Some c')
  from overwrite_invar_lookup [OF inv Some] set_ch_overwrite [OF Some]
  show ?thesis by simp
next
  case None
  then have nc: "\<not> contains h t key" by (simp add: contains_def set_loop_None_iff)
  let ?t1 = "insert_node h t key val"
  from insert_node_invar_lookup [OF inv nc, of val]
  have t1: "invar h ?t1" "lookup ?t1 = (lookup t)(key \<mapsto> val)" "capacity ?t1 = capacity t"
    by simp_all
  from rehashing_invar_lookup [OF t1(1)] t1
  have r: "invar h (snd (rehashing h ?t1))" "lookup (snd (rehashing h ?t1)) = (lookup t)(key \<mapsto> val)"
    "capacity t \<le> capacity (snd (rehashing h ?t1))" by simp_all
  show ?thesis using set_ch_insert [OF nc, of val] t1 r by (simp add: Let_def)
qed

lemma apply_op_invar:
  "invar h t \<Longrightarrow> invar h (apply_op h op t) \<and> capacity t \<le> capacity (apply_op h op t)"
  using set_ch_invar_lookup remove_invar_lookup by (cases op) (simp_all, fastforce+)

lemma run_invar:
  "invar h t \<Longrightarrow> invar h (run h ops t) \<and> capacity t \<le> capacity (run h ops t)"
  unfolding run_def
proof (induction ops arbitrary: t)
  case Nil
  then show ?case by simp
next
  case (Cons op ops)
  from apply_op_invar [OF Cons.prems, of op]
  have 1: "invar h (apply_op h op t)" and 2: "capacity t \<le> capacity (apply_op h op t)" by simp_all
  from Cons.IH [OF 1] 2 show ?case by simp
qed

lemma constructed_invar:
  "initialCapacity \<le> INT_MAX \<Longrightarrow> invar h (run h ops (ChainHash_init initialCapacity))"
  using run_invar [OF invar_init] by blast

lemma get_after_set:
  assumes "invar h t"
  shows "get h (snd (set_ch h t key val)) k = (if k = key then Inr val else get h t k)"
  using set_ch_invar_lookup [OF assms, of key val] get_lookup [OF assms, of k]
    get_lookup [of h "snd (set_ch h t key val)" k]
  by simp

section \<open>The claims about single operations\<close>

lemma invar_ex_table: "invar ex_hash ex_table"
  by (simp add: ex_table_def ex_hash_def invar_def placed_def entries_def used_count_def
      INT_MAX_def less_Suc_eq)

lemma ex_table_reached:
  "run ex_hash [Set 1 ''a'', Set 6 ''f'', Set 2 ''b'', Set 11 ''k''] (ChainHash_init 5) = ex_table"
  by code_simp

text \<open>
  Claim C1. For every key \<open>key\<close> and value \<open>val\<close>, immediately after \<open>set(key, val)\<close> on any
  table that satisfies the invariant, \<open>get(key)\<close> returns \<open>val\<close> and \<open>contains(key)\<close> is
  true. This holds whether the call overwrites, inserts, or inserts and rehashes, and also
  for the table that a throwing rehash leaves behind.
\<close>

theorem set_then_get_contains:
  assumes "invar h t"
  shows "get h (snd (set_ch h t key val)) key = Inr val \<and> contains h (snd (set_ch h t key val)) key"
proof -
  from set_ch_invar_lookup [OF assms, of key val]
  have inv': "invar h (snd (set_ch h t key val))"
    and l: "lookup (snd (set_ch h t key val)) key = Some val" by simp_all
  from get_lookup [OF inv', of key] contains_lookup [OF inv', of key] l show ?thesis by simp
qed

theorem set_then_get_contains_witness:
  "invar ex_hash ex_table \<and>
   get ex_hash (snd (set_ch ex_hash ex_table 7 ''g'')) 7 = Inr ''g'' \<and>
   contains ex_hash (snd (set_ch ex_hash ex_table 7 ''g'')) 7 \<and>
   capacity (snd (set_ch ex_hash ex_table 7 ''g'')) = 5 \<and>
   get ex_hash (snd (set_ch ex_hash ex_table 16 ''p'')) 16 = Inr ''p'' \<and>
   capacity (snd (set_ch ex_hash ex_table 16 ''p'')) = 11"
proof -
  have c: "capacity (snd (set_ch ex_hash ex_table 7 ''g'')) = 5"
    "capacity (snd (set_ch ex_hash ex_table 16 ''p'')) = 11" by code_simp+
  from set_then_get_contains [OF invar_ex_table, of 7 "''g''"]
    set_then_get_contains [OF invar_ex_table, of 16 "''p''"] invar_ex_table c
  show ?thesis by simp
qed

text \<open>
  Claim C5. On every table that satisfies the invariant, \<open>remove(key)\<close> returns true exactly
  when the key is present; afterwards the key is absent: \<open>contains\<close> is false, \<open>get\<close>
  fails with \<open>KeyNotFound\<close>, and an immediately repeated \<open>remove(key)\<close> returns false.
  So two removals of a present key return true, then false.
\<close>

theorem remove_present_then_absent:
  assumes "invar h t"
  shows "fst (remove_ch h t key) = contains h t key \<and>
         \<not> contains h (snd (remove_ch h t key)) key \<and>
         get h (snd (remove_ch h t key)) key = Inl KeyNotFound \<and>
         \<not> fst (remove_ch h (snd (remove_ch h t key)) key)"
proof -
  let ?t' = "snd (remove_ch h t key)"
  from remove_invar_lookup [OF assms, of key]
  have inv': "invar h ?t'" and l: "lookup ?t' key = None"
    and r: "fst (remove_ch h t key) = (lookup t key \<noteq> None)" by simp_all
  from remove_invar_lookup [OF inv', of key] l
  have r2: "\<not> fst (remove_ch h ?t' key)" by simp
  from r r2 l contains_lookup [OF assms, of key] contains_lookup [OF inv', of key]
    get_lookup [OF inv', of key]
  show ?thesis by simp
qed

theorem remove_present_then_absent_witness:
  "invar ex_hash ex_table \<and> contains ex_hash ex_table 6 \<and>
   fst (remove_ch ex_hash ex_table 6) \<and>
   \<not> contains ex_hash (snd (remove_ch ex_hash ex_table 6)) 6 \<and>
   get ex_hash (snd (remove_ch ex_hash ex_table 6)) 6 = Inl KeyNotFound \<and>
   \<not> fst (remove_ch ex_hash (snd (remove_ch ex_hash ex_table 6)) 6) \<and>
   \<not> contains ex_hash ex_table 3 \<and> \<not> fst (remove_ch ex_hash ex_table 3)"
proof -
  have c: "contains ex_hash ex_table 6" "\<not> contains ex_hash ex_table 3" by code_simp+
  from remove_present_then_absent [OF invar_ex_table, of 6]
    remove_present_then_absent [OF invar_ex_table, of 3] invar_ex_table c
  show ?thesis by simp
qed

lemma set_loop_map:
  "set_loop key val c = Some c' \<Longrightarrow> distinct (map fst c) \<Longrightarrow>
     c' = map (\<lambda>e. if fst e = key then (key, val) else e) c"
proof (induction key val c arbitrary: c' rule: set_loop.induct)
  case (1 key val)
  then show ?case by simp
next
  case (2 key val k v "next")
  show ?case
  proof (cases "k = key")
    case True
    with "2.prems" have "c' = (k, val) # next" and "key \<notin> fst ` set next" by auto
    moreover from this(2) have "map (\<lambda>e. if fst e = key then (key, val) else e) next = next"
      by (induction "next") auto
    ultimately show ?thesis using True by simp
  next
    case False
    with "2.prems" obtain n' where n': "set_loop key val next = Some n'" "c' = (k, v) # n'"
      by auto
    from "2.prems" have "distinct (map fst next)" by simp
    from "2.IH" [OF False n'(1) this] n'(2) False show ?thesis by simp
  qed
qed

lemma overwrite_array:
  assumes inv: "invar h t" and sl: "set_loop key val (array t ! bucket_index h t key) = Some c'"
  shows "(array t)[bucket_index h t key := c'] =
         map (map (\<lambda>e. if fst e = key then (key, val) else e)) (array t)"
proof (rule nth_equalityI)
  show "length ((array t)[bucket_index h t key := c']) =
        length (map (map (\<lambda>e. if fst e = key then (key, val) else e)) (array t))" by simp
next
  fix j assume "j < length ((array t)[bucket_index h t key := c'])"
  then have j: "j < length (array t)" by simp
  let ?i = "bucket_index h t key"
  have i: "?i < length (array t)" using inv by (rule invar_index)
  show "(array t)[?i := c'] ! j = map (map (\<lambda>e. if fst e = key then (key, val) else e)) (array t) ! j"
  proof (cases "j = ?i")
    case True
    have "distinct (map fst (array t ! ?i))"
      using inv distinct_chain [OF _ i] by (simp add: invar_def entries_def)
    from set_loop_map [OF sl this] True i show ?thesis by simp
  next
    case False
    have "\<forall>e \<in> set (array t ! j). fst e \<noteq> key"
    proof
      fix e assume "e \<in> set (array t ! j)"
      from bucket_keys_hash [OF inv j this] False show "fst e \<noteq> key"
        by (auto simp: bucket_index_def)
    qed
    then have "map (\<lambda>e. if fst e = key then (key, val) else e) (array t ! j) = array t ! j"
      by (simp add: map_idI)
    with False j show ?thesis by simp
  qed
qed

text \<open>
  Claim C6. On every table that satisfies the invariant and already contains \<open>key\<close>,
  \<open>set(key, v2)\<close> throws nothing and returns the same table with the value of the node of
  \<open>key\<close> replaced and every other node, every chain's order and every counter unchanged:
  \<open>get(key)\<close> is \<open>v2\<close>, every other key reads as before, and \<open>size()\<close>,
  \<open>bucket_count()\<close>, \<open>usedBuckets\<close> and every \<open>bucket_size(i)\<close> are the same, so no node
  was created and no rehash happened.
\<close>

theorem overwrite_in_place:
  assumes inv: "invar h t" and c: "contains h t key"
  shows "set_ch h t key v2 =
           (None, t\<lparr>array := map (map (\<lambda>e. if fst e = key then (key, v2) else e)) (array t)\<rparr>) \<and>
         get h (snd (set_ch h t key v2)) key = Inr v2 \<and>
         (\<forall>k. k \<noteq> key \<longrightarrow> get h (snd (set_ch h t key v2)) k = get h t k) \<and>
         size_ch (snd (set_ch h t key v2)) = size_ch t \<and>
         bucket_count (snd (set_ch h t key v2)) = bucket_count t \<and>
         usedBuckets (snd (set_ch h t key v2)) = usedBuckets t \<and>
         (\<forall>i. bucket_size (snd (set_ch h t key v2)) i = bucket_size t i) \<and>
         map (map fst) (array (snd (set_ch h t key v2))) = map (map fst) (array t)"
proof -
  from c obtain c' where sl: "set_loop key v2 (array t ! bucket_index h t key) = Some c'"
    using set_loop_None_iff [of key v2 "array t ! bucket_index h t key"]
    by (auto simp: contains_def)
  have eq: "set_ch h t key v2 =
      (None, t\<lparr>array := map (map (\<lambda>e. if fst e = key then (key, v2) else e)) (array t)\<rparr>)"
    using set_ch_overwrite [OF sl] overwrite_array [OF inv sl] by simp
  have g: "get h (snd (set_ch h t key v2)) k = (if k = key then Inr v2 else get h t k)" for k
    by (rule get_after_set [OF inv])
  have "map (map fst) (map (map (\<lambda>e. if fst e = key then (key, v2) else e)) (array t)) =
        map (map fst) (array t)"
    by (simp add: comp_def cong: map_cong)
  with eq g show ?thesis by (simp add: size_ch_def bucket_count_def bucket_size_def)
qed

theorem overwrite_in_place_witness:
  "invar ex_hash ex_table \<and> contains ex_hash ex_table 6 \<and>
   set_ch ex_hash ex_table 6 ''x'' =
     (None, \<lparr>array = [[], [(11, ''k''), (6, ''x''), (1, ''a'')], [(2, ''b'')], [], []],
        nsize = 4, capacity = 5, bucket_sizes = [0, 3, 1, 0, 0], usedBuckets = 2\<rparr>) \<and>
   get ex_hash (snd (set_ch ex_hash ex_table 6 ''x'')) 6 = Inr ''x'' \<and>
   get ex_hash (snd (set_ch ex_hash ex_table 6 ''x'')) 11 = get ex_hash ex_table 11"
proof -
  have c: "contains ex_hash ex_table 6" by code_simp
  have e: "ex_table\<lparr>array := map (map (\<lambda>e. if fst e = 6 then (6, ''x'') else e)) (array ex_table)\<rparr> =
     \<lparr>array = [[], [(11, ''k''), (6, ''x''), (1, ''a'')], [(2, ''b'')], [], []],
        nsize = 4, capacity = 5, bucket_sizes = [0, 3, 1, 0, 0], usedBuckets = 2\<rparr>"
    by (simp add: ex_table_def)
  note th = overwrite_in_place [OF invar_ex_table c, of "''x''"]
  from th have A: "set_ch ex_hash ex_table 6 ''x'' =
      (None, ex_table\<lparr>array := map (map (\<lambda>e. if fst e = 6 then (6, ''x'') else e)) (array ex_table)\<rparr>)"
    by (rule conjunct1)
  from th have B: "get ex_hash (snd (set_ch ex_hash ex_table 6 ''x'')) 6 = Inr ''x''"
    by blast
  from th have "\<forall>k. k \<noteq> 6 \<longrightarrow> get ex_hash (snd (set_ch ex_hash ex_table 6 ''x'')) k = get ex_hash ex_table k"
    by blast
  then have C: "get ex_hash (snd (set_ch ex_hash ex_table 6 ''x'')) 11 = get ex_hash ex_table 11"
    by simp
  from A e have A': "set_ch ex_hash ex_table 6 ''x'' =
     (None, \<lparr>array = [[], [(11, ''k''), (6, ''x''), (1, ''a'')], [(2, ''b'')], [], []],
        nsize = 4, capacity = 5, bucket_sizes = [0, 3, 1, 0, 0], usedBuckets = 2\<rparr>)"
    by (rule trans [OF _ arg_cong [of _ _ "Pair None"]])
  show ?thesis using invar_ex_table c A' B C by blast
qed

section \<open>The claims about sequences of operations\<close>

lemma run_append: "run h (pre @ post) t = run h post (run h pre t)"
  by (simp add: run_def)

lemma rehashing_None_iff:
  assumes "invar h t"
  shows "fst (rehashing h t) = None \<longleftrightarrow> capacity t < INT_MAX"
proof (cases "capacity t < INT_MAX")
  case True
  with rehashing_ok [OF assms] show ?thesis by simp
next
  case False
  with assms have "capacity t = INT_MAX" by (simp add: invar_def)
  from rehashing_throws [OF assms this] False show ?thesis by simp
qed

text \<open>
  Claim C8. Across every sequence of \<open>set\<close> and \<open>remove\<close> operations on a table that
  satisfies the invariant, \<open>bucket_count()\<close> never decreases: it is monotone along every
  extension of a sequence, a single \<open>set\<close> never lowers it, \<open>remove\<close> leaves it as it is,
  and every rehash that runs strictly increases it. The only other outcome of a rehash is
  the exception at capacity \<open>INT_MAX\<close>, which leaves the table untouched.
\<close>

theorem bucket_count_never_decreases:
  assumes "invar h t"
  shows "bucket_count (run h pre t) \<le> bucket_count (run h (pre @ post) t) \<and>
         bucket_count t \<le> bucket_count (snd (set_ch h t key val)) \<and>
         bucket_count (snd (remove_ch h t key)) = bucket_count t \<and>
         (fst (rehashing h t) = None \<longrightarrow> bucket_count t < bucket_count (snd (rehashing h t))) \<and>
         (fst (rehashing h t) \<noteq> None \<longrightarrow> snd (rehashing h t) = t \<and> bucket_count t = INT_MAX)"
proof -
  from run_invar [OF assms, of pre] have 1: "invar h (run h pre t)" by simp
  from run_invar [OF 1, of post]
  have a: "bucket_count (run h pre t) \<le> bucket_count (run h (pre @ post) t)"
    by (simp add: run_append bucket_count_def)
  from set_ch_invar_lookup [OF assms, of key val]
  have b: "bucket_count t \<le> bucket_count (snd (set_ch h t key val))"
    by (simp add: bucket_count_def)
  from remove_invar_lookup [OF assms, of key]
  have c: "bucket_count (snd (remove_ch h t key)) = bucket_count t"
    by (simp add: bucket_count_def)
  have d: "fst (rehashing h t) = None \<longrightarrow> bucket_count t < bucket_count (snd (rehashing h t))"
  proof
    assume "fst (rehashing h t) = None"
    with rehashing_None_iff [OF assms] have lt: "capacity t < INT_MAX" by simp
    from assms have "0 < capacity t" "capacity t \<le> INT_MAX" by (simp_all add: invar_def)
    from new_capacity_cases [OF this] lt rehashing_ok [OF assms lt]
    show "bucket_count t < bucket_count (snd (rehashing h t))" by (simp add: bucket_count_def)
  qed
  have e: "fst (rehashing h t) \<noteq> None \<longrightarrow> snd (rehashing h t) = t \<and> bucket_count t = INT_MAX"
  proof
    assume "fst (rehashing h t) \<noteq> None"
    with rehashing_None_iff [OF assms] assms have "capacity t = INT_MAX" by (simp add: invar_def)
    with rehashing_throws [OF assms this]
    show "snd (rehashing h t) = t \<and> bucket_count t = INT_MAX" by (simp add: bucket_count_def)
  qed
  from a b c d e show ?thesis by blast
qed

theorem bucket_count_never_decreases_witness:
  "invar ex_hash ex_table \<and> fst (rehashing ex_hash ex_table) = None \<and>
   bucket_count ex_table = 5 \<and> bucket_count (snd (rehashing ex_hash ex_table)) = 11 \<and>
   bucket_count (run ex_hash [Set 16 ''p''] ex_table) = 11 \<and>
   bucket_count (run ex_hash ([Set 16 ''p''] @ [Remove 16, Remove 11, Remove 6]) ex_table) = 11 \<and>
   bucket_count (snd (remove_ch ex_hash ex_table 6)) = 5"
proof -
  have c: "fst (rehashing ex_hash ex_table) = None" "bucket_count ex_table = 5"
    "bucket_count (snd (rehashing ex_hash ex_table)) = 11"
    "bucket_count (run ex_hash [Set 16 ''p''] ex_table) = 11"
    "bucket_count (run ex_hash ([Set 16 ''p''] @ [Remove 16, Remove 11, Remove 6]) ex_table) = 11"
    by code_simp+
  from bucket_count_never_decreases [OF invar_ex_table, where pre = "[Set 16 ''p'']"
      and post = "[Remove 16, Remove 11, Remove 6]" and key = 6 and val = "''x''"] invar_ex_table c
  show ?thesis by simp
qed

lemma sum_list_lengths:
  "sum_list (map (\<lambda>i. int (length (A ! i))) [0..<length A]) = int (length (concat A))"
proof -
  have "map (\<lambda>i. int (length (A ! i))) [0..<length A] = map (\<lambda>c. int (length c)) A"
    by (rule nth_equalityI) simp_all
  moreover have "sum_list (map (\<lambda>c. int (length c)) A) = int (length (concat A))"
    by (induction A) simp_all
  ultimately show ?thesis by simp
qed

lemma used_count_indices:
  "length (filter (\<lambda>i. 0 < int (length (A ! i))) [0..<length A]) = used_count A"
proof -
  have "length (filter (\<lambda>i. 0 < int (length (A ! i))) [0..<length A]) =
        length (filter (\<lambda>c. 0 < int (length c)) (map (\<lambda>i. A ! i) [0..<length A]))"
    by (simp add: filter_map comp_def)
  also have "map (\<lambda>i. A ! i) [0..<length A] = A" by (rule map_nth)
  finally show ?thesis by (simp add: used_count_def)
qed

lemma bucket_size_in_range:
  assumes "invar h t" "i < nat (bucket_count t)"
  shows "bucket_size t (int i) = Inr (int (length (array t ! i)))"
  using assms by (simp add: bucket_size_def bucket_count_def invar_def)

text \<open>
  Claim C3. After any sequence of \<open>set\<close> and \<open>remove\<close> operations on a table that
  satisfies the invariant (a fresh table does), \<open>size()\<close> equals the sum of
  \<open>bucket_size(i)\<close> over all \<open>i\<close> in \<open>[0, bucket_count())\<close>, and \<open>usedBuckets\<close> equals the
  number of buckets whose size is greater than 0. For each such \<open>i\<close>, \<open>bucket_size(i)\<close>
  returns without error the actual length of the chain.
\<close>

theorem counters_agree_with_buckets:
  assumes "invar h t0"
  shows "size_ch (run h ops t0) =
           (\<Sum>i\<leftarrow>[0..<nat (bucket_count (run h ops t0))].
              case bucket_size (run h ops t0) (int i) of Inr n \<Rightarrow> n | Inl e \<Rightarrow> 0) \<and>
         usedBuckets (run h ops t0) =
           int (length (filter (\<lambda>i. case bucket_size (run h ops t0) (int i) of
                                       Inr n \<Rightarrow> 0 < n | Inl e \<Rightarrow> False)
                          [0..<nat (bucket_count (run h ops t0))])) \<and>
         (\<forall>i < nat (bucket_count (run h ops t0)).
            bucket_size (run h ops t0) (int i) = Inr (int (length (array (run h ops t0) ! i))))"
proof -
  let ?t = "run h ops t0"
  from run_invar [OF assms, of ops] have inv: "invar h ?t" by simp
  then have len: "nat (bucket_count ?t) = length (array ?t)"
    by (simp add: invar_def bucket_count_def)
  have bs: "\<And>i. i < length (array ?t) \<Longrightarrow> bucket_size ?t (int i) = Inr (int (length (array ?t ! i)))"
    using bucket_size_in_range [OF inv] len by simp
  have "(\<Sum>i\<leftarrow>[0..<length (array ?t)]. case bucket_size ?t (int i) of Inr n \<Rightarrow> n | Inl e \<Rightarrow> 0) =
        (\<Sum>i\<leftarrow>[0..<length (array ?t)]. int (length (array ?t ! i)))"
    by (rule arg_cong [of _ _ sum_list], rule map_cong) (simp_all add: bs)
  then have 1: "size_ch ?t = (\<Sum>i\<leftarrow>[0..<nat (bucket_count ?t)].
              case bucket_size ?t (int i) of Inr n \<Rightarrow> n | Inl e \<Rightarrow> 0)"
    using inv by (simp add: len sum_list_lengths size_ch_def invar_def entries_def)
  have "filter (\<lambda>i. case bucket_size ?t (int i) of Inr n \<Rightarrow> 0 < n | Inl e \<Rightarrow> False) [0..<length (array ?t)] =
        filter (\<lambda>i. 0 < int (length (array ?t ! i))) [0..<length (array ?t)]"
    by (rule filter_cong) (simp_all add: bs)
  then have 2: "usedBuckets ?t =
           int (length (filter (\<lambda>i. case bucket_size ?t (int i) of Inr n \<Rightarrow> 0 < n | Inl e \<Rightarrow> False)
                          [0..<nat (bucket_count ?t)]))"
    using inv by (simp only: len used_count_indices) (simp add: invar_def)
  from 1 2 bs len show ?thesis by simp
qed

theorem counters_agree_with_buckets_witness:
  "invar ex_hash ex_table \<and>
   size_ch (run ex_hash [Set 16 ''p'', Remove 2, Remove 3, Set 6 ''x''] ex_table) = 4 \<and>
   (\<Sum>i\<leftarrow>[0..<nat (bucket_count (run ex_hash [Set 16 ''p'', Remove 2, Remove 3, Set 6 ''x''] ex_table))].
      case bucket_size (run ex_hash [Set 16 ''p'', Remove 2, Remove 3, Set 6 ''x''] ex_table) (int i) of
        Inr n \<Rightarrow> n | Inl e \<Rightarrow> 0) = 4 \<and>
   usedBuckets (run ex_hash [Set 16 ''p'', Remove 2, Remove 3, Set 6 ''x''] ex_table) = 4"
proof -
  have c: "size_ch (run ex_hash [Set 16 ''p'', Remove 2, Remove 3, Set 6 ''x''] ex_table) = 4"
    "usedBuckets (run ex_hash [Set 16 ''p'', Remove 2, Remove 3, Set 6 ''x''] ex_table) = 4"
    by code_simp+
  from counters_agree_with_buckets [OF invar_ex_table,
      of "[Set 16 ''p'', Remove 2, Remove 3, Set 6 ''x'']"] invar_ex_table c
  show ?thesis by simp
qed

lemma lookup_run_sets:
  "invar h t \<Longrightarrow>
   lookup (run h (map (\<lambda>(k, v). Set k v) kvs) t) = lookup t ++ map_of (rev kvs)"
proof (induction kvs arbitrary: t)
  case Nil
  then show ?case by (simp add: run_def)
next
  case (Cons kv kvs)
  obtain k v where kv: "kv = (k, v)" by (cases kv)
  from set_ch_invar_lookup [OF Cons.prems, of k v]
  have inv': "invar h (snd (set_ch h t k v))"
    and l: "lookup (snd (set_ch h t k v)) = (lookup t)(k \<mapsto> v)" by simp_all
  have r: "run h (map (\<lambda>(k, v). Set k v) (kv # kvs)) t =
        run h (map (\<lambda>(k, v). Set k v) kvs) (snd (set_ch h t k v))"
    by (simp add: run_def kv)
  have "lookup (run h (map (\<lambda>(k, v). Set k v) (kv # kvs)) t) =
        lookup (snd (set_ch h t k v)) ++ map_of (rev kvs)"
    unfolding r by (rule Cons.IH [OF inv'])
  also have "\<dots> = (lookup t)(k \<mapsto> v) ++ map_of (rev kvs)"
    by (simp only: l)
  also have "\<dots> = lookup t ++ map_of (rev (kv # kvs))"
    by (simp add: kv map_add_def fun_eq_iff split: option.splits)
  finally show ?case .
qed

text \<open>
  Claim C2. Rehashing preserves content. On every table that satisfies the invariant (so on
  every table reached by any sequence of \<open>set\<close> operations), a rehash leaves \<open>get\<close>
  unchanged for every key, keeps the very same entries (as a multiset: none duplicated, none
  lost, no key twice) and the same \<open>size()\<close>. Consequently, after any sequence of
  \<open>set\<close> calls, however many rehashes it forces, every key reads the value of its last
  \<open>set\<close>, and a key that was not set reads as before.
\<close>

theorem rehashing_preserves_content:
  assumes "invar h t"
  shows "(\<forall>k. get h (snd (rehashing h t)) k = get h t k) \<and>
         mset (entries (snd (rehashing h t))) = mset (entries t) \<and>
         distinct (map fst (entries (snd (rehashing h t)))) \<and>
         size_ch (snd (rehashing h t)) = size_ch t \<and>
         (\<forall>k. get h (run h (map (\<lambda>(k, v). Set k v) kvs) t) k =
               (case map_of (rev kvs) k of Some v \<Rightarrow> Inr v | None \<Rightarrow> get h t k))"
proof -
  let ?r = "snd (rehashing h t)"
  from rehashing_invar_lookup [OF assms]
  have inv': "invar h ?r" and l: "lookup ?r = lookup t" by simp_all
  have a: "\<forall>k. get h ?r k = get h t k"
    using get_lookup [OF inv'] get_lookup [OF assms] l by simp
  have b: "mset (entries ?r) = mset (entries t) \<and> size_ch ?r = size_ch t"
  proof (cases "capacity t < INT_MAX")
    case True
    from rehashing_ok [OF assms True] show ?thesis by (simp add: size_ch_def)
  next
    case False
    with assms have "capacity t = INT_MAX" by (simp add: invar_def)
    from rehashing_throws [OF assms this] show ?thesis by simp
  qed
  have c: "distinct (map fst (entries ?r))" using inv' by (simp add: invar_def)
  let ?s = "run h (map (\<lambda>(k, v). Set k v) kvs) t"
  from run_invar [OF assms] have invs: "invar h ?s" by simp
  have d: "\<forall>k. get h ?s k = (case map_of (rev kvs) k of Some v \<Rightarrow> Inr v | None \<Rightarrow> get h t k)"
    using get_lookup [OF invs] get_lookup [OF assms] lookup_run_sets [OF assms, of kvs]
    by (simp add: map_add_def split: option.splits)
  from a b c d show ?thesis by blast
qed

theorem rehashing_preserves_content_witness:
  "invar ex_hash ex_table \<and>
   capacity (snd (rehashing ex_hash ex_table)) = 11 \<and>
   get ex_hash (snd (rehashing ex_hash ex_table)) 6 = Inr ''f'' \<and>
   size_ch (snd (rehashing ex_hash ex_table)) = 4 \<and>
   capacity (run ex_hash (map (\<lambda>(k, v). Set k v)
      [(16, ''p''), (0, ''z''), (3, ''c''), (4, ''d''), (5, ''e''), (7, ''g''), (8, ''h''),
       (9, ''i''), (10, ''j''), (6, ''y'')]) ex_table) = 23 \<and>
   get ex_hash (run ex_hash (map (\<lambda>(k, v). Set k v)
      [(16, ''p''), (0, ''z''), (3, ''c''), (4, ''d''), (5, ''e''), (7, ''g''), (8, ''h''),
       (9, ''i''), (10, ''j''), (6, ''y'')]) ex_table) 11 = Inr ''k'' \<and>
   get ex_hash (run ex_hash (map (\<lambda>(k, v). Set k v)
      [(16, ''p''), (0, ''z''), (3, ''c''), (4, ''d''), (5, ''e''), (7, ''g''), (8, ''h''),
       (9, ''i''), (10, ''j''), (6, ''y'')]) ex_table) 6 = Inr ''y''"
proof -
  have c: "capacity (snd (rehashing ex_hash ex_table)) = 11"
    "get ex_hash ex_table 6 = Inr ''f''" "get ex_hash ex_table 11 = Inr ''k''"
    "size_ch ex_table = 4"
    "capacity (run ex_hash (map (\<lambda>(k, v). Set k v)
      [(16, ''p''), (0, ''z''), (3, ''c''), (4, ''d''), (5, ''e''), (7, ''g''), (8, ''h''),
       (9, ''i''), (10, ''j''), (6, ''y'')]) ex_table) = 23"
    by code_simp+
  from rehashing_preserves_content [OF invar_ex_table, of
      "[(16, ''p''), (0, ''z''), (3, ''c''), (4, ''d''), (5, ''e''), (7, ''g''), (8, ''h''),
       (9, ''i''), (10, ''j''), (6, ''y'')]"] invar_ex_table c
  show ?thesis by simp
qed

section \<open>The bag of words\<close>

lemma set_ch_no_throw:
  assumes inv: "invar h t" and cap: "capacity t < 1073741824"
  shows "fst (set_ch h t key val) = None \<and> capacity (snd (set_ch h t key val)) \<le> 2 * capacity t + 1"
proof (cases "set_loop key val (array t ! bucket_index h t key)")
  case (Some c')
  from set_ch_overwrite [OF Some] inv show ?thesis by (simp add: invar_def)
next
  case None
  then have nc: "\<not> contains h t key" by (simp add: contains_def set_loop_None_iff)
  let ?t1 = "insert_node h t key val"
  from insert_node_invar_lookup [OF inv nc, of val]
  have t1: "invar h ?t1" "capacity ?t1 = capacity t" by simp_all
  from inv have pos: "0 < capacity t" by (simp add: invar_def)
  from cap have "capacity ?t1 < INT_MAX" by (simp add: t1(2) INT_MAX_def)
  from rehashing_ok [OF t1(1) this] new_capacity_small [OF pos cap]
  have "fst (rehashing h ?t1) = None" "capacity (snd (rehashing h ?t1)) = 2 * capacity t + 1"
    by (simp_all add: t1(2))
  with set_ch_insert [OF nc, of val] t1 pos show ?thesis by (simp add: Let_def)
qed

lemma add_word_ok:
  assumes inv: "invar h t" and cap: "capacity t < 1073741824"
  shows "\<exists>t'. add_word h i w t = Inr t' \<and> invar h t' \<and>
              lookup t' = (lookup t)(w \<mapsto> (case lookup t w of None \<Rightarrow> [i] | Some d \<Rightarrow> d @ [i])) \<and>
              capacity t' + 1 \<le> 2 * (capacity t + 1)"
proof -
  let ?v = "case lookup t w of None \<Rightarrow> [i] | Some d \<Rightarrow> d @ [i]"
  have eq: "add_word h i w t = (case set_ch h t w ?v of (Some e, r) \<Rightarrow> Inl e | (None, r) \<Rightarrow> Inr r)"
    using contains_lookup [OF inv, of w] get_lookup [OF inv, of w]
    by (auto simp: add_word_def split: option.splits)
  obtain e r where er: "set_ch h t w ?v = (e, r)" by (cases "set_ch h t w ?v")
  from set_ch_no_throw [OF inv cap, of w ?v] er
  have e: "e = None" and c: "capacity r \<le> 2 * capacity t + 1" by simp_all
  from set_ch_invar_lookup [OF inv, of w ?v] er
  have r: "invar h r" "lookup r = (lookup t)(w \<mapsto> ?v)" by simp_all
  from eq er e have "add_word h i w t = Inr r" by simp
  with r c show ?thesis by simp
qed

lemma word_loop_ok:
  assumes "invar h t" "distinct ws" "(capacity t + 1) * 2 ^ length ws \<le> 1073741824"
  shows "\<exists>t'. word_loop h i ws t = Inr t' \<and> invar h t' \<and>
              (\<forall>w. lookup t' w = (if w \<in> set ws
                                   then Some (case lookup t w of None \<Rightarrow> [i] | Some d \<Rightarrow> d @ [i])
                                   else lookup t w)) \<and>
              capacity t' + 1 \<le> (capacity t + 1) * 2 ^ length ws"
  using assms
proof (induction ws arbitrary: t)
  case Nil
  then show ?case by simp
next
  case (Cons a ws)
  have p: "(1::int) \<le> 2 ^ length ws" by simp
  from Cons.prems(1) have pos: "0 < capacity t" by (simp add: invar_def)
  have "(capacity t + 1) * 1 \<le> (capacity t + 1) * 2 ^ length ws"
    using pos p by (intro mult_left_mono) simp_all
  with Cons.prems(3) have cap: "capacity t < 1073741824" by simp
  from add_word_ok [OF Cons.prems(1) cap, of i a] obtain t1 where
    t1: "add_word h i a t = Inr t1" "invar h t1"
      "lookup t1 = (lookup t)(a \<mapsto> (case lookup t a of None \<Rightarrow> [i] | Some d \<Rightarrow> d @ [i]))"
      "capacity t1 + 1 \<le> 2 * (capacity t + 1)" by blast
  have "(capacity t1 + 1) * 2 ^ length ws \<le> (2 * (capacity t + 1)) * 2 ^ length ws"
    using t1(4) by (intro mult_right_mono) simp_all
  also have "\<dots> = (capacity t + 1) * 2 ^ length (a # ws)" by simp
  finally have b: "(capacity t1 + 1) * 2 ^ length ws \<le> (capacity t + 1) * 2 ^ length (a # ws)" .
  from b Cons.prems(3) have b': "(capacity t1 + 1) * 2 ^ length ws \<le> 1073741824"
    by (rule order_trans)
  from Cons.prems(2) have d: "distinct ws" "a \<notin> set ws" by simp_all
  from Cons.IH [OF t1(2) d(1) b'] obtain t' where
    t': "word_loop h i ws t1 = Inr t'" "invar h t'"
      "\<forall>w. lookup t' w = (if w \<in> set ws
                            then Some (case lookup t1 w of None \<Rightarrow> [i] | Some d \<Rightarrow> d @ [i])
                            else lookup t1 w)"
      "capacity t' + 1 \<le> (capacity t1 + 1) * 2 ^ length ws" by blast
  have "word_loop h i (a # ws) t = Inr t'" using t1(1) t'(1) by simp
  moreover have "\<forall>w. lookup t' w = (if w \<in> set (a # ws)
                                   then Some (case lookup t w of None \<Rightarrow> [i] | Some d \<Rightarrow> d @ [i])
                                   else lookup t w)"
    using t'(3) t1(3) d(2) by auto
  moreover have "capacity t' + 1 \<le> (capacity t + 1) * 2 ^ length (a # ws)"
    using t'(4) b by (rule order_trans)
  ultimately show ?case using t'(2) by blast
qed


lemma doc_indices_bounds:
  "sorted (doc_indices w j ds) \<and> distinct (doc_indices w j ds) \<and> (\<forall>x \<in> set (doc_indices w j ds). j \<le> x)"
proof (induction ds arbitrary: j)
  case Nil
  then show ?case by simp
next
  case (Cons d ds)
  from Cons.IH [of "j + 1"]
  have IH: "sorted (doc_indices w (j + 1) ds)" "distinct (doc_indices w (j + 1) ds)"
    "\<forall>x \<in> set (doc_indices w (j + 1) ds). j + 1 \<le> x" by simp_all
  from IH(3) have "\<forall>x \<in> set (doc_indices w (j + 1) ds). j \<le> x \<and> j \<noteq> x" by auto
  with IH show ?case by auto
qed

lemma doc_loop_ok:
  assumes ord: "\<forall>ws. distinct (order ws) \<and> set (order ws) = set ws"
  shows "invar h t \<Longrightarrow>
     (capacity t + 1) * 2 ^ sum_list (map (\<lambda>d. length (tokenize d)) ds) \<le> 1073741824 \<Longrightarrow>
     \<exists>t'. doc_loop h order j ds t = Inr t' \<and> invar h t' \<and>
          (\<forall>w. lookup t' w =
                (if doc_indices w j ds = [] then lookup t w
                 else Some ((case lookup t w of None \<Rightarrow> [] | Some d \<Rightarrow> d) @ doc_indices w j ds)))"
proof (induction ds arbitrary: t j)
  case Nil
  then show ?case by simp
next
  case (Cons d ds)
  let ?ws = "order (tokenize d)"
  let ?n = "sum_list (map (\<lambda>d. length (tokenize d)) ds)"
  from ord have ows: "distinct ?ws" "set ?ws = set (tokenize d)" by simp_all
  have "length ?ws = card (set (tokenize d))" using ows distinct_card by metis
  then have len: "length ?ws \<le> length (tokenize d)" by (simp add: card_length)
  from Cons.prems(1) have pos: "0 < capacity t" by (simp add: invar_def)
  have pw: "(2::int) ^ length ?ws \<le> 2 ^ length (tokenize d)"
    using len by (intro power_increasing) simp_all
  have "(capacity t + 1) * 2 ^ length ?ws * 2 ^ ?n \<le>
        (capacity t + 1) * 2 ^ length (tokenize d) * 2 ^ ?n"
    using pw pos by (intro mult_right_mono mult_left_mono) simp_all
  also have "\<dots> = (capacity t + 1) * 2 ^ sum_list (map (\<lambda>d. length (tokenize d)) (d # ds))"
    by (simp add: power_add)
  finally have tot: "(capacity t + 1) * 2 ^ length ?ws * 2 ^ ?n \<le> 1073741824"
    using Cons.prems(2) by (rule order_trans)
  have "(capacity t + 1) * 2 ^ length ?ws * 1 \<le> (capacity t + 1) * 2 ^ length ?ws * 2 ^ ?n"
    using pos by (intro mult_left_mono) simp_all
  with tot have b1: "(capacity t + 1) * 2 ^ length ?ws \<le> 1073741824" by simp
  from word_loop_ok [OF Cons.prems(1) ows(1) b1, of j] obtain t1 where
    t1: "word_loop h j ?ws t = Inr t1" "invar h t1"
      "\<forall>w. lookup t1 w = (if w \<in> set ?ws
                            then Some (case lookup t w of None \<Rightarrow> [j] | Some d \<Rightarrow> d @ [j])
                            else lookup t w)"
      "capacity t1 + 1 \<le> (capacity t + 1) * 2 ^ length ?ws" by blast
  have "(capacity t1 + 1) * 2 ^ ?n \<le> (capacity t + 1) * 2 ^ length ?ws * 2 ^ ?n"
    using t1(4) by (intro mult_right_mono) simp_all
  from this tot have b2: "(capacity t1 + 1) * 2 ^ ?n \<le> 1073741824" by (rule order_trans)
  from Cons.IH [OF t1(2) b2, of "j + 1"] obtain t' where
    t': "doc_loop h order (j + 1) ds t1 = Inr t'" "invar h t'"
      "\<forall>w. lookup t' w =
                (if doc_indices w (j + 1) ds = [] then lookup t1 w
                 else Some ((case lookup t1 w of None \<Rightarrow> [] | Some d \<Rightarrow> d) @ doc_indices w (j + 1) ds))"
    by blast
  have "doc_loop h order j (d # ds) t = Inr t'" using t1(1) t'(1) by simp
  moreover have "\<forall>w. lookup t' w =
                (if doc_indices w j (d # ds) = [] then lookup t w
                 else Some ((case lookup t w of None \<Rightarrow> [] | Some d \<Rightarrow> d) @ doc_indices w j (d # ds)))"
    using t'(3) t1(3) ows(2) by (auto split: option.splits)
  ultimately show ?case using t'(2) by blast
qed

lemma bagOfWords_index:
  assumes ord: "\<forall>ws. distinct (order ws) \<and> set (order ws) = set ws"
    and small: "sum_list (map (\<lambda>d. length (tokenize d)) docs) \<le> 26"
  shows "\<exists>t. bagOfWords h order docs = Inr t \<and> invar h t \<and>
          (\<forall>w. get h t w = (if doc_indices w 0 docs = [] then Inl KeyNotFound
                            else Inr (doc_indices w 0 docs)))"
proof -
  let ?t0 = "ChainHash_init 13 :: (string, int list) ChainHash"
  have inv0: "invar h ?t0" by (rule invar_init) (simp add: INT_MAX_def)
  have c0: "capacity ?t0 = 13" by (simp add: ChainHash_init_def)
  have "(2::int) ^ sum_list (map (\<lambda>d. length (tokenize d)) docs) \<le> 2 ^ 26"
    using small by (intro power_increasing) simp_all
  then have "(capacity ?t0 + 1) * 2 ^ sum_list (map (\<lambda>d. length (tokenize d)) docs) \<le> 1073741824"
    by (simp add: c0)
  from doc_loop_ok [OF ord inv0 this, of 0] obtain t where
    t: "doc_loop h order 0 docs ?t0 = Inr t" "invar h t"
      "\<forall>w. lookup t w =
                (if doc_indices w 0 docs = [] then lookup ?t0 w
                 else Some ((case lookup ?t0 w of None \<Rightarrow> [] | Some d \<Rightarrow> d) @ doc_indices w 0 docs))"
    by blast
  have "\<forall>w. get h t w = (if doc_indices w 0 docs = [] then Inl KeyNotFound
                            else Inr (doc_indices w 0 docs))"
    using t(3) get_lookup [OF t(2)] by (simp add: lookup_init)
  with t(1,2) show ?thesis by (auto simp: bagOfWords_def)
qed


lemma documentos_tokens:
  "sum_list (map (\<lambda>d. length (tokenize d)) documentos) = 22"
  "doc_indices ''casa'' 0 documentos = [0, 1, 2, 3]"
  "doc_indices ''grande'' 0 documentos = [0, 2]"
  "doc_indices ''gato'' 0 documentos = [1]"
  "doc_indices ''el'' 0 documentos = [1, 3]"
  by code_simp+

text \<open>
  Claim C9. Running the bag-of-words builder on the four documents of \<^verbatim>\<open>main\<close> returns
  normally, for every hash function and every traversal order of the per-document token
  sets, with a table in which \<open>get("casa") = [0,1,2,3]\<close>, \<open>get("grande") = [0,2]\<close>,
  \<open>get("gato") = [1]\<close> and \<open>get("el") = [1,3]\<close>; the document-index list of every word
  of the table is in ascending order, without repetition.
\<close>

theorem bagOfWords_documentos:
  assumes "\<forall>ws. distinct (order ws) \<and> set (order ws) = set ws"
  shows "\<exists>t. bagOfWords h order documentos = Inr t \<and>
           get h t ''casa'' = Inr [0, 1, 2, 3] \<and>
           get h t ''grande'' = Inr [0, 2] \<and>
           get h t ''gato'' = Inr [1] \<and>
           get h t ''el'' = Inr [1, 3] \<and>
           (\<forall>w docs. get h t w = Inr docs \<longrightarrow> sorted docs \<and> distinct docs)"
proof -
  have "sum_list (map (\<lambda>d. length (tokenize d)) documentos) \<le> 26"
    by (simp add: documentos_tokens)
  from bagOfWords_index [OF assms this, of h] obtain t where
    t: "bagOfWords h order documentos = Inr t"
      "\<forall>w. get h t w = (if doc_indices w 0 documentos = [] then Inl KeyNotFound
                         else Inr (doc_indices w 0 documentos))"
    by blast
  have "\<forall>w docs. get h t w = Inr docs \<longrightarrow> sorted docs \<and> distinct docs"
  proof (intro allI impI)
    fix w docs assume "get h t w = Inr docs"
    with t(2) have "docs = doc_indices w 0 documentos" by (auto split: if_splits)
    with doc_indices_bounds [of w 0 documentos] show "sorted docs \<and> distinct docs" by simp
  qed
  with t show ?thesis by (simp add: documentos_tokens)
qed

theorem bagOfWords_documentos_witness:
  "(\<forall>ws :: string list. distinct (remdups ws) \<and> set (remdups ws) = set ws) \<and>
   (\<exists>t. bagOfWords ex_string_hash remdups documentos = Inr t \<and>
        get ex_string_hash t ''casa'' = Inr [0, 1, 2, 3] \<and>
        get ex_string_hash t ''grande'' = Inr [0, 2] \<and>
        get ex_string_hash t ''gato'' = Inr [1] \<and>
        get ex_string_hash t ''el'' = Inr [1, 3])"
proof -
  have o: "\<forall>ws :: string list. distinct (remdups ws) \<and> set (remdups ws) = set ws" by simp
  from bagOfWords_documentos [OF o, of ex_string_hash] o show ?thesis by blast
qed

lemma bagOfWords_documentos_run:
  "bagOfWords ex_string_hash remdups documentos =
     Inr \<lparr>array =
        [[(''es'', [0, 2])], [], [], [(''casa'', [0, 1, 2, 3])],
         [(''grande'', [0, 2])], [], [], [], [(''est'', [1])],
         [(''brilla'', [3])], [(''sol'', [3])], [], [], [(''y'', [2])], [],
         [], [(''la'', [0, 1, 2, 3]), (''bonita'', [2])], [], [], [],
         [(''el'', [1, 3])], [], [(''gato'', [1]), (''en'', [1])], [], [],
         [], [(''sobre'', [3])]],
        nsize = 13, capacity = 27,
        bucket_sizes =
          [1, 0, 0, 1, 1, 0, 0, 0, 1, 1, 1, 0, 0, 1, 0, 0, 2, 0, 0, 0, 1, 0,
           2, 0, 0, 0, 1],
        usedBuckets = 11\<rparr>"
  by code_simp

section \<open>The fill-factor test in floating point\<close>

lemma binade_bounds:
  assumes "0 < x"
  shows "2 powi binade x \<le> x \<and> x < 2 powi (binade x + 1)"
proof (cases "1 \<le> x")
  case True
  let ?n = "\<lfloor>x\<rfloor>"
  from True have n: "0 < ?n" by simp
  from bitlen_bounds [OF n] have b: "2 ^ nat (bitlen ?n - 1) \<le> ?n" "?n < 2 ^ nat (bitlen ?n)"
    by simp_all
  from n have bl: "0 < bitlen ?n" using bitlen_nonneg [of ?n] bitlen_eq_zero_iff [of ?n] by linarith
  have e1: "(2::rat) powi (bitlen ?n - 1) = 2 ^ nat (bitlen ?n - 1)"
    using bl by (simp add: power_int_def)
  have e2: "(2::rat) powi (bitlen ?n) = 2 ^ nat (bitlen ?n)"
    using bl by (simp add: power_int_def)
  from b(1) have "(of_int (2 ^ nat (bitlen ?n - 1)) :: rat) \<le> of_int ?n" by (simp only: of_int_le_iff)
  then have "(2::rat) ^ nat (bitlen ?n - 1) \<le> of_int ?n" by simp
  also have "\<dots> \<le> x" by simp
  finally have l: "(2::rat) ^ nat (bitlen ?n - 1) \<le> x" .
  from b(2) have "?n + 1 \<le> 2 ^ nat (bitlen ?n)" by simp
  then have "(of_int (?n + 1) :: rat) \<le> of_int (2 ^ nat (bitlen ?n))" by (simp only: of_int_le_iff)
  then have "of_int ?n + 1 \<le> (2::rat) ^ nat (bitlen ?n)" by simp
  moreover have "x < of_int ?n + 1" by linarith
  ultimately have u: "x < (2::rat) ^ nat (bitlen ?n)" by simp
  from True l u show ?thesis by (simp add: binade_def e1 e2)
next
  case False
  let ?m = "\<lceil>1 / x\<rceil> - 1"
  from False assms have "1 < 1 / x" by simp
  then have "1 < \<lceil>1 / x\<rceil>" by (simp add: less_ceiling_iff)
  then have m: "0 < ?m" by simp
  from bitlen_bounds [OF m] have b: "2 ^ nat (bitlen ?m - 1) \<le> ?m" "?m < 2 ^ nat (bitlen ?m)"
    by simp_all
  from m have bl: "0 < bitlen ?m" using bitlen_nonneg [of ?m] bitlen_eq_zero_iff [of ?m] by linarith
  have e1: "(2::rat) powi (- bitlen ?m) = 1 / 2 ^ nat (bitlen ?m)"
    using bl by (simp add: power_int_def inverse_eq_divide power_one_over)
  have e2: "(2::rat) powi (1 - bitlen ?m) = 1 / 2 ^ nat (bitlen ?m - 1)"
    using bl by (simp add: power_int_def inverse_eq_divide power_one_over nat_diff_distrib)
  have my: "of_int ?m < 1 / x" "1 / x \<le> of_int ?m + 1"
    using ceiling_correct [of "1 / x"] by simp_all
  from b(2) have "?m + 1 \<le> 2 ^ nat (bitlen ?m)" by simp
  then have "(of_int (?m + 1) :: rat) \<le> of_int (2 ^ nat (bitlen ?m))" by (simp only: of_int_le_iff)
  then have "of_int ?m + 1 \<le> (2::rat) ^ nat (bitlen ?m)" by simp
  with my(2) have "1 / x \<le> (2::rat) ^ nat (bitlen ?m)" by (rule order_trans)
  then have l: "1 / 2 ^ nat (bitlen ?m) \<le> x" using assms by (simp add: field_simps)
  from b(1) have "(of_int (2 ^ nat (bitlen ?m - 1)) :: rat) \<le> of_int ?m" by (simp only: of_int_le_iff)
  then have "(2::rat) ^ nat (bitlen ?m - 1) \<le> of_int ?m" by simp
  from this my(1) have "(2::rat) ^ nat (bitlen ?m - 1) < 1 / x" by (rule order_le_less_trans)
  then have u: "x < 1 / 2 ^ nat (bitlen ?m - 1)" using assms by (simp add: field_simps)
  from False l u show ?thesis by (simp add: binade_def e1 e2)
qed

lemma round_to_examples:
  "round_to 53 (4 / 5) = 3602879701896397 / 4503599627370496"
  "round_to 24 (4 / 5) = 13421773 / 16777216"
  "round_to 53 (1 / 3) = 6004799503160661 / 18014398509481984"
  "round_to 53 (13421773 / 16777216) = 13421773 / 16777216"
  by code_simp+

lemma maxFillFactor_value: "maxFillFactor = 13421773 / 16777216"
  by code_simp

lemma round_half_even_ge: "of_int n \<le> x \<Longrightarrow> n \<le> round_half_even x"
proof -
  assume "of_int n \<le> x"
  then have "n \<le> \<lfloor>x\<rfloor>" by (simp add: le_floor_iff)
  then show ?thesis by (simp add: round_half_even_def Let_def)
qed

lemma round_half_even_le: "x \<le> of_int n \<Longrightarrow> round_half_even x \<le> n"
proof -
  assume x: "x \<le> of_int n"
  then have f: "\<lfloor>x\<rfloor> \<le> n" by (simp add: floor_le_iff) 
  show ?thesis
  proof (cases "x = of_int \<lfloor>x\<rfloor>")
    case True
    then have "x - of_int \<lfloor>x\<rfloor> = 0" by simp
    with f show ?thesis by (simp add: round_half_even_def Let_def)
  next
    case False
    then have "of_int \<lfloor>x\<rfloor> < x" using of_int_floor_le [of x] by (auto simp: less_le)
    with x have "of_int \<lfloor>x\<rfloor> < (of_int n :: rat)" by simp
    then have "\<lfloor>x\<rfloor> < n" by simp
    then show ?thesis by (simp add: round_half_even_def Let_def)
  qed
qed

lemma binade_below_one:
  assumes "0 < x" "x < 1"
  shows "binade x \<le> - 1"
proof -
  from assms have "1 < 1 / x" by simp
  then have "1 < \<lceil>1 / x\<rceil>" by (simp add: less_ceiling_iff)
  then have "1 \<le> \<lceil>1 / x\<rceil> - 1" by simp
  then have "0 < bitlen (\<lceil>1 / x\<rceil> - 1)"
    using bitlen_nonneg [of "\<lceil>1 / x\<rceil> - 1"] bitlen_eq_zero_iff [of "\<lceil>1 / x\<rceil> - 1"]
    by linarith
  with assms show ?thesis by (simp add: binade_def)
qed


lemma round_to_53_below_one:
  assumes "0 < x" "x < 1"
  obtains j :: nat where "round_to 53 x = of_int (round_half_even (x * (2 ^ 53 * 2 ^ j))) / (2 ^ 53 * 2 ^ j)"
proof -
  from binade_below_one [OF assms] have "0 \<le> - 53 - (binade x - 52)" by simp
  then obtain j :: nat where j: "int j = - 53 - (binade x - 52)"
    using nonneg_int_cases by metis
  then have e: "binade x - 52 = - int (53 + j)" by simp
  have "(2::rat) powi (- int (53 + j)) = inverse (2 powi int (53 + j))"
    by (rule power_int_minus)
  also have "\<dots> = inverse (2 ^ (53 + j))" by (simp only: power_int_of_nat)
  also have "\<dots> = 1 / (2 ^ 53 * 2 ^ j)" by (simp only: power_add inverse_eq_divide)
  finally have p: "(2::rat) powi (- int (53 + j)) = 1 / (2 ^ 53 * 2 ^ j)" .
  have "round_to 53 x = of_int (round_half_even (x / (2 powi (binade x - 52)))) * 2 powi (binade x - 52)"
    using assms by (simp add: round_to_def Let_def)
  also have "\<dots> = of_int (round_half_even (x * (2 ^ 53 * 2 ^ j))) / (2 ^ 53 * 2 ^ j)"
    unfolding e p by simp
  finally show ?thesis by (rule that)
qed

lemma round_to_53_le_threshold:
  assumes "0 < x" "x < 1" "x \<le> 13421773 / 16777216"
  shows "round_to 53 x \<le> 13421773 / 16777216"
proof -
  from round_to_53_below_one [OF assms(1,2)] obtain j :: nat where
    r: "round_to 53 x = of_int (round_half_even (x * (2 ^ 53 * 2 ^ j))) / (2 ^ 53 * 2 ^ j)" .
  let ?M = "13421773 * 2 ^ 29 * 2 ^ j :: int"
  have M: "(of_int ?M :: rat) = 13421773 / 16777216 * (2 ^ 53 * 2 ^ j)" by simp
  have "x * (2 ^ 53 * 2 ^ j) \<le> 13421773 / 16777216 * (2 ^ 53 * 2 ^ j)"
    using assms(3) by (intro mult_right_mono) simp_all
  then have "x * (2 ^ 53 * 2 ^ j) \<le> of_int ?M" by (simp only: M)
  then have "round_half_even (x * (2 ^ 53 * 2 ^ j)) \<le> ?M" by (rule round_half_even_le)
  then have "(of_int (round_half_even (x * (2 ^ 53 * 2 ^ j))) :: rat) \<le> of_int ?M"
    by (simp only: of_int_le_iff)
  then have "of_int (round_half_even (x * (2 ^ 53 * 2 ^ j))) / (2 ^ 53 * 2 ^ j) \<le>
        (of_int ?M :: rat) / (2 ^ 53 * 2 ^ j)"
    by (intro divide_right_mono) simp_all
  also have "\<dots> = 13421773 / 16777216" by (simp only: M) simp
  finally show ?thesis by (simp only: r)
qed

lemma round_to_53_gt_threshold:
  assumes "0 < x" "x < 1" "13421773 / 16777216 + 1 / 2 ^ 53 \<le> x"
  shows "13421773 / 16777216 < round_to 53 x"
proof -
  from round_to_53_below_one [OF assms(1,2)] obtain j :: nat where
    r: "round_to 53 x = of_int (round_half_even (x * (2 ^ 53 * 2 ^ j))) / (2 ^ 53 * 2 ^ j)" .
  let ?M = "13421773 * 2 ^ 29 * 2 ^ j :: int"
  have M: "(of_int ?M :: rat) = 13421773 / 16777216 * (2 ^ 53 * 2 ^ j)" by simp
  have one: "(1::rat) \<le> 1 / 2 ^ 53 * (2 ^ 53 * 2 ^ j)" by simp
  have "(13421773 / 16777216 + 1 / 2 ^ 53) * (2 ^ 53 * 2 ^ j) \<le> x * (2 ^ 53 * 2 ^ j)"
    using assms(3) by (intro mult_right_mono) simp_all
  then have "of_int ?M + 1 / 2 ^ 53 * (2 ^ 53 * 2 ^ j) \<le> x * (2 ^ 53 * 2 ^ j)"
    by (simp only: M distrib_right)
  moreover have "(of_int ?M :: rat) + 1 \<le> of_int ?M + 1 / 2 ^ 53 * (2 ^ 53 * 2 ^ j)"
    using one by (rule add_left_mono)
  ultimately have "(of_int ?M :: rat) + 1 \<le> x * (2 ^ 53 * 2 ^ j)" by (rule order_trans [rotated])
  then have "of_int (?M + 1) \<le> x * (2 ^ 53 * 2 ^ j)" by (simp only: of_int_add of_int_1)
  then have "?M + 1 \<le> round_half_even (x * (2 ^ 53 * 2 ^ j))" by (rule round_half_even_ge)
  then have "?M < round_half_even (x * (2 ^ 53 * 2 ^ j))" by simp
  then have "(of_int ?M :: rat) < of_int (round_half_even (x * (2 ^ 53 * 2 ^ j)))"
    by (simp only: of_int_less_iff)
  then have "(of_int ?M :: rat) / (2 ^ 53 * 2 ^ j) <
        of_int (round_half_even (x * (2 ^ 53 * 2 ^ j))) / (2 ^ 53 * 2 ^ j)"
    by (intro divide_strict_right_mono) simp_all
  moreover have "(of_int ?M :: rat) / (2 ^ 53 * 2 ^ j) = 13421773 / 16777216" by (simp only: M) simp
  ultimately show ?thesis by (simp only: r)
qed

lemma round_to_53_one: "round_to 53 1 = 1"
  by code_simp


lemma fill_quotient_le_threshold:
  assumes "0 \<le> u" "u \<le> c" "0 < c" "(of_int u :: rat) / of_int c \<le> 13421773 / 16777216"
  shows "\<not> maxFillFactor < double_div (double_of_int u) (double_of_int c)"
proof (cases "u = 0")
  case True
  then show ?thesis by (simp add: double_div_def double_of_int_def round_to_def maxFillFactor_value)
next
  case False
  with assms(1) have u: "0 < u" by simp
  have "u \<noteq> c"
  proof
    assume "u = c"
    with assms(3,4) show False by simp
  qed
  with assms(2) have "u < c" by simp
  with u assms(3) have x: "0 < (of_int u :: rat) / of_int c" "(of_int u :: rat) / of_int c < 1"
    by simp_all
  from round_to_53_le_threshold [OF x assms(4)] show ?thesis
    by (simp add: double_div_def double_of_int_def maxFillFactor_value)
qed

lemma fill_trigger_iff:
  assumes "0 \<le> u" "u \<le> c" "0 < c" "c < 16777216"
  shows "maxFillFactor < double_div (double_of_int u) (double_of_int c) \<longleftrightarrow> 4 * c < 5 * u"
proof (cases "4 * c < 5 * u")
  case False
  then have "5 * u \<le> 4 * c" by simp
  then have "(of_int (5 * u) :: rat) \<le> of_int (4 * c)" by (simp only: of_int_le_iff)
  then have "5 * (of_int u :: rat) \<le> 4 * of_int c" by simp
  then have "(of_int u :: rat) / of_int c \<le> 4 / 5" using assms(3) by (simp add: field_simps)
  then have "(of_int u :: rat) / of_int c \<le> 13421773 / 16777216" by simp
  from fill_quotient_le_threshold [OF assms(1-3) this] False show ?thesis by simp
next
  case True
  show ?thesis
  proof (cases "u = c")
    case uc: True
    with assms(3) have "(of_int u :: rat) / of_int c = 1" by simp
    then have "double_div (double_of_int u) (double_of_int c) = 1"
      by (simp add: double_div_def double_of_int_def round_to_53_one)
    with True show ?thesis by (simp add: maxFillFactor_value)
  next
    case False
    with assms(2) have "u < c" by simp
    moreover from True assms(3) have "0 < u" by simp
    ultimately have x: "0 < (of_int u :: rat) / of_int c" "(of_int u :: rat) / of_int c < 1"
      using assms(3) by simp_all
    from True assms(4) have "7205759511166977 * c \<le> 9007199254740992 * u" by simp
    then have "(of_int (7205759511166977 * c) :: rat) \<le> of_int (9007199254740992 * u)"
      by (simp only: of_int_le_iff)
    then have "7205759511166977 * (of_int c :: rat) \<le> 9007199254740992 * of_int u" by simp
    then have "13421773 / 16777216 + 1 / 2 ^ 53 \<le> (of_int u :: rat) / of_int c"
      using assms(3) by (simp add: field_simps)
    from round_to_53_gt_threshold [OF x this] True show ?thesis
      by (simp add: double_div_def double_of_int_def maxFillFactor_value)
  qed
qed

lemma round_half_even_above_half:
  assumes "of_int n + 1 / 2 < y"
  shows "n + 1 \<le> round_half_even y"
proof -
  from assms have "of_int n \<le> y" by simp
  then have nf: "n \<le> \<lfloor>y\<rfloor>" by (simp add: le_floor_iff)
  show ?thesis
  proof (cases "n = \<lfloor>y\<rfloor>")
    case True
    with assms have "1 / 2 < y - of_int \<lfloor>y\<rfloor>" by simp
    then show ?thesis using True by (simp add: round_half_even_def Let_def)
  next
    case False
    with nf have "n + 1 \<le> \<lfloor>y\<rfloor>" by simp
    moreover have "\<lfloor>y\<rfloor> \<le> round_half_even y" by (rule round_half_even_ge) simp
    ultimately show ?thesis by simp
  qed
qed

lemma binade_half_to_one:
  assumes "1 / 2 \<le> x" "x < 1"
  shows "binade x = - 1"
proof (rule ccontr)
  assume n: "binade x \<noteq> - 1"
  from assms have pos: "0 < x" by simp
  from binade_below_one [OF pos assms(2)] n have "binade x + 1 \<le> - 1" by simp
  then have "(2::rat) powi (binade x + 1) \<le> 2 powi (- 1)" by (rule power_int_increasing) simp
  also have "\<dots> = 1 / 2" by (simp add: power_int_minus)
  finally have "(2::rat) powi (binade x + 1) \<le> x" using assms(1) by simp
  with binade_bounds [OF pos] show False by simp
qed

lemma round_to_53_gt_threshold_half_ulp:
  assumes "x < 1" "13421773 / 16777216 + 1 / 2 ^ 54 < x"
  shows "13421773 / 16777216 < round_to 53 x"
proof -
  from assms(2) have h: "1 / 2 \<le> x" and pos: "0 < x" by simp_all
  have p: "(2::rat) powi (- 53) = 1 / 2 ^ 53" by (simp add: power_int_minus)
  have r: "round_to 53 x = of_int (round_half_even (x * 2 ^ 53)) / 2 ^ 53"
    using pos by (simp add: round_to_def Let_def binade_half_to_one [OF h assms(1)] p)
  let ?M = "7205759511166976 :: int"
  have "(13421773 / 16777216 + 1 / 2 ^ 54) * 2 ^ 53 < x * 2 ^ 53"
    using assms(2) by (intro mult_strict_right_mono) simp_all
  then have "of_int ?M + 1 / 2 < x * 2 ^ 53" by simp
  then have "?M + 1 \<le> round_half_even (x * 2 ^ 53)" by (rule round_half_even_above_half)
  then have "(of_int (?M + 1) :: rat) \<le> of_int (round_half_even (x * 2 ^ 53))"
    by (simp only: of_int_le_iff)
  then have "(of_int (?M + 1) :: rat) / 2 ^ 53 \<le> of_int (round_half_even (x * 2 ^ 53)) / 2 ^ 53"
    by (intro divide_right_mono) simp_all
  moreover have "(13421773 / 16777216 :: rat) < of_int (?M + 1) / 2 ^ 53" by simp
  ultimately show ?thesis unfolding r by (rule less_le_trans [rotated])
qed

lemma fill_trigger_margin:
  assumes "0 \<le> u" "u \<le> c" "0 < c" "c < (16777216 * u - 13421773 * c) * 1073741824"
  shows "maxFillFactor < double_div (double_of_int u) (double_of_int c)"
proof (cases "u = c")
  case True
  with assms(3) have "(of_int u :: rat) / of_int c = 1" by simp
  then show ?thesis
    by (simp add: double_div_def double_of_int_def round_to_53_one maxFillFactor_value)
next
  case False
  with assms(2) have "u < c" by simp
  then have x: "(of_int u :: rat) / of_int c < 1" using assms(3) by simp
  from assms(4) have "16777216 * c < (16777216 * u - 13421773 * c) * 18014398509481984" by simp
  then have "(of_int (16777216 * c) :: rat) < of_int ((16777216 * u - 13421773 * c) * 18014398509481984)"
    by (simp only: of_int_less_iff)
  then have "16777216 * (of_int c :: rat) < (16777216 * of_int u - 13421773 * of_int c) * 18014398509481984"
    by simp
  then have "13421773 / 16777216 + 1 / 2 ^ 54 < (of_int u :: rat) / of_int c"
    using assms(3) by (simp add: field_simps)
  from round_to_53_gt_threshold_half_ulp [OF x this] show ?thesis
    by (simp add: double_div_def double_of_int_def maxFillFactor_value)
qed

lemma fill_trigger_only_if:
  assumes "0 \<le> u" "u \<le> c" "0 < c" "maxFillFactor < double_div (double_of_int u) (double_of_int c)"
  shows "4 * c < 5 * u"
proof (rule ccontr)
  assume "\<not> 4 * c < 5 * u"
  then have "5 * u \<le> 4 * c" by simp
  then have "(of_int (5 * u) :: rat) \<le> of_int (4 * c)" by (simp only: of_int_le_iff)
  then have "5 * (of_int u :: rat) \<le> 4 * of_int c" by simp
  then have "(of_int u :: rat) / of_int c \<le> 4 / 5" using assms(3) by (simp add: field_simps)
  then have "(of_int u :: rat) / of_int c \<le> 13421773 / 16777216" by simp
  from fill_quotient_le_threshold [OF assms(1-3) this] assms(4) show False by simp
qed

section \<open>When \<open>set\<close> rehashes\<close>

lemma used_count_le_length: "used_count A \<le> length A"
  by (simp add: used_count_def)

lemma set_ch_cases:
  assumes inv: "invar h t"
  shows "contains h t key \<Longrightarrow>
           fst (set_ch h t key val) = None \<and> capacity (snd (set_ch h t key val)) = capacity t"
    and "\<not> contains h t key \<Longrightarrow>
           \<not> (3 < bucket_sizes (insert_node h t key val) ! bucket_index h t key \<or>
              maxFillFactor < fillFactor (insert_node h t key val)) \<Longrightarrow>
           set_ch h t key val = (None, insert_node h t key val)"
    and "\<not> contains h t key \<Longrightarrow>
           3 < bucket_sizes (insert_node h t key val) ! bucket_index h t key \<or>
             maxFillFactor < fillFactor (insert_node h t key val) \<Longrightarrow>
           set_ch h t key val = rehashing h (insert_node h t key val)"
proof -
  show "contains h t key \<Longrightarrow>
           fst (set_ch h t key val) = None \<and> capacity (snd (set_ch h t key val)) = capacity t"
    using set_ch_present [of h t key val] by auto
  show "\<not> contains h t key \<Longrightarrow>
           \<not> (3 < bucket_sizes (insert_node h t key val) ! bucket_index h t key \<or>
              maxFillFactor < fillFactor (insert_node h t key val)) \<Longrightarrow>
           set_ch h t key val = (None, insert_node h t key val)"
    using set_ch_insert [of h t key val] by (simp add: Let_def maxColision_def)
  show "\<not> contains h t key \<Longrightarrow>
           3 < bucket_sizes (insert_node h t key val) ! bucket_index h t key \<or>
             maxFillFactor < fillFactor (insert_node h t key val) \<Longrightarrow>
           set_ch h t key val = rehashing h (insert_node h t key val)"
    using set_ch_insert [of h t key val] by (simp add: Let_def maxColision_def)
qed

lemma insert_node_used_range:
  assumes inv: "invar h t" and nc: "\<not> contains h t key"
  shows "0 \<le> usedBuckets (insert_node h t key val)"
    and "usedBuckets (insert_node h t key val) \<le> capacity t"
    and "0 < capacity t"
    and "fillFactor (insert_node h t key val) =
           double_div (double_of_int (usedBuckets (insert_node h t key val))) (double_of_int (capacity t))"
proof -
  let ?t1 = "insert_node h t key val"
  from insert_node_invar_lookup [OF inv nc, of val]
  have t1: "invar h ?t1" "capacity ?t1 = capacity t" by simp_all
  from t1(1) have i1: "usedBuckets ?t1 = int (used_count (array ?t1))"
    "length (array ?t1) = nat (capacity ?t1)" "0 < capacity ?t1" by (simp_all add: invar_def)
  show "0 \<le> usedBuckets ?t1" using i1 by simp
  show "usedBuckets ?t1 \<le> capacity t"
    using i1 t1(2) used_count_le_length [of "array ?t1"] by linarith
  show "0 < capacity t" using i1(3) t1(2) by simp
  show "fillFactor ?t1 = double_div (double_of_int (usedBuckets ?t1)) (double_of_int (capacity t))"
    by (simp add: fillFactor_def t1(2))
qed

lemma rehashing_after_insert:
  assumes inv: "invar h t" and nc: "\<not> contains h t key"
  shows "capacity t < INT_MAX \<Longrightarrow>
           fst (rehashing h (insert_node h t key val)) = None \<and>
           capacity (snd (rehashing h (insert_node h t key val))) = new_capacity (capacity t) \<and>
           capacity t < new_capacity (capacity t)"
    and "capacity t = INT_MAX \<Longrightarrow>
           rehashing h (insert_node h t key val) = (Some BadArrayNewLength, insert_node h t key val)"
proof -
  let ?t1 = "insert_node h t key val"
  from insert_node_invar_lookup [OF inv nc, of val]
  have t1: "invar h ?t1" "capacity ?t1 = capacity t" by simp_all
  from inv have pos: "0 < capacity t" "capacity t \<le> INT_MAX" by (simp_all add: invar_def)
  show "capacity t < INT_MAX \<Longrightarrow>
           fst (rehashing h ?t1) = None \<and>
           capacity (snd (rehashing h ?t1)) = new_capacity (capacity t) \<and>
           capacity t < new_capacity (capacity t)"
    using rehashing_ok [OF t1(1)] new_capacity_cases [OF pos] by (simp add: t1(2))
  show "capacity t = INT_MAX \<Longrightarrow> rehashing h ?t1 = (Some BadArrayNewLength, ?t1)"
    using rehashing_throws [OF t1(1)] by (simp add: t1(2))
qed

lemma set_ch_rehash_iff:
  assumes inv: "invar h t" and lt: "capacity t < INT_MAX"
  shows "bucket_count (snd (set_ch h t key val)) \<noteq> bucket_count t \<longleftrightarrow>
           \<not> contains h t key \<and>
           (3 < bucket_sizes (insert_node h t key val) ! bucket_index h t key \<or>
            maxFillFactor < fillFactor (insert_node h t key val))"
proof (cases "contains h t key")
  case True
  with set_ch_cases(1) [OF inv True, of val] show ?thesis by (simp add: bucket_count_def)
next
  case nc: False
  let ?t1 = "insert_node h t key val"
  from insert_node_invar_lookup [OF inv nc, of val] have c1: "capacity ?t1 = capacity t" by simp
  show ?thesis
  proof (cases "3 < bucket_sizes ?t1 ! bucket_index h t key \<or> maxFillFactor < fillFactor ?t1")
    case True
    from set_ch_cases(3) [OF inv nc True] rehashing_after_insert(1) [OF inv nc lt, of val] nc True
    show ?thesis by (simp add: bucket_count_def)
  next
    case False
    from set_ch_cases(2) [OF inv nc False] nc False c1 show ?thesis by (simp add: bucket_count_def)
  qed
qed

lemma new_capacity_examples:
  "new_capacity 5 = 11" "new_capacity 1073741823 = 2147483647"
  "new_capacity 1073741824 = 1073741825" "new_capacity 2147483647 = - 2147483648"
  by (simp_all add: new_capacity_def int32_def Let_def)

text \<open>
  Claim C4, amended. On a table that satisfies the invariant, write \<open>size1\<close> for the size
  of the target bucket and \<open>u\<close> for \<open>usedBuckets\<close> after the insertion of the key, and \<open>c\<close>
  for the capacity. A rehash is observed as a change of \<open>bucket_count()\<close>.
  \<^item> \<open>set\<close> rehashes only when the key was absent and, after the insertion, \<open>size1\<close>
    exceeds 3 or \<open>u / c\<close> exceeds \<open>4/5\<close>.
  \<^item> When the key was absent and the capacity is below \<open>INT_MAX\<close> (where the rehash throws
    instead), \<open>set\<close> does rehash whenever \<open>size1\<close> exceeds 3, and whenever
    \<open>u / c\<close> exceeds \<open>13421773 / 2 ^ 24\<close> (the value of \<^verbatim>\<open>maxFillFactor\<close>) by more than
    \<open>1 / 2 ^ 54\<close>; below \<open>2 ^ 30\<close> buckets that is whenever it exceeds
    \<open>13421773 / 2 ^ 24\<close>, and below \<open>2 ^ 24\<close> buckets whenever it exceeds \<open>4/5\<close>.
  \<^item> A rehash that is triggered returns normally, and the new capacity is
    \<open>2 * oldCapacity + 1\<close> below \<open>2 ^ 30\<close> buckets and \<open>oldCapacity + 1\<close> from there on.
  \<^item> When the capacity does not change and the key was absent, the result is the plain
    insertion.
  Nothing is said about a fill factor between \<open>4/5\<close> and \<open>13421773 / 2 ^ 24\<close>.
\<close>

theorem set_rehash_trigger:
  fixes h :: "'k \<Rightarrow> nat" and t :: "('k, 'v) ChainHash" and key :: 'k and val :: 'v
  defines "r \<equiv> set_ch h t key val"
    and "t1 \<equiv> insert_node h t key val"
    and "c \<equiv> capacity t"
  defines "size1 \<equiv> bucket_sizes t1 ! bucket_index h t key"
    and "u \<equiv> usedBuckets t1"
  assumes inv: "invar h t"
  shows "(bucket_count (snd r) \<noteq> bucket_count t \<longrightarrow>
            \<not> contains h t key \<and> (3 < size1 \<or> 4 * c < 5 * u)) \<and>
         (\<not> contains h t key \<and> c < INT_MAX \<and> 3 < size1 \<longrightarrow>
            bucket_count (snd r) \<noteq> bucket_count t) \<and>
         (\<not> contains h t key \<and> c < INT_MAX \<and> c < (16777216 * u - 13421773 * c) * 1073741824 \<longrightarrow>
            bucket_count (snd r) \<noteq> bucket_count t) \<and>
         (\<not> contains h t key \<and> c < 1073741824 \<and> 13421773 * c < 16777216 * u \<longrightarrow>
            bucket_count (snd r) \<noteq> bucket_count t) \<and>
         (\<not> contains h t key \<and> c < 16777216 \<and> 4 * c < 5 * u \<longrightarrow>
            bucket_count (snd r) \<noteq> bucket_count t) \<and>
         (bucket_count (snd r) \<noteq> bucket_count t \<longrightarrow>
            r = rehashing h t1 \<and> fst r = None \<and>
            bucket_count (snd r) = (if c < 1073741824 then 2 * c + 1 else c + 1)) \<and>
         (bucket_count (snd r) = bucket_count t \<and> \<not> contains h t key \<and> c < INT_MAX \<longrightarrow>
            r = (None, t1))"
proof -
  let ?ch = "bucket_count (snd r) \<noteq> bucket_count t"
  let ?cond = "3 < size1 \<or> maxFillFactor < fillFactor t1"
  from inv have pos: "0 < c" "c \<le> INT_MAX" by (simp_all add: invar_def c_def)
  have iff: "c < INT_MAX \<Longrightarrow> ?ch \<longleftrightarrow> \<not> contains h t key \<and> ?cond"
    using set_ch_rehash_iff [OF inv, of key val] by (simp add: r_def t1_def c_def size1_def)
  have nochange: "c = INT_MAX \<Longrightarrow> \<not> ?ch"
  proof (cases "contains h t key")
    case True
    from set_ch_cases(1) [OF inv True, of val] show ?thesis by (simp add: r_def bucket_count_def)
  next
    case nc: False
    assume m: "c = INT_MAX"
    from insert_node_invar_lookup [OF inv nc, of val] have c1: "capacity t1 = capacity t"
      by (simp add: t1_def)
    show ?thesis
    proof (cases ?cond)
      case True
      from set_ch_cases(3) [OF inv nc, of val] True rehashing_after_insert(2) [OF inv nc, of val] m c1
      show ?thesis by (simp add: r_def t1_def c_def size1_def bucket_count_def)
    next
      case False
      from set_ch_cases(2) [OF inv nc, of val] False c1
      show ?thesis by (simp add: r_def t1_def size1_def bucket_count_def)
    qed
  qed
  have fill: "\<not> contains h t key \<Longrightarrow> fillFactor t1 = double_div (double_of_int u) (double_of_int c)"
    "\<not> contains h t key \<Longrightarrow> 0 \<le> u" "\<not> contains h t key \<Longrightarrow> u \<le> c"
    using insert_node_used_range(1,2,4) [OF inv, of key val] by (simp_all add: t1_def u_def c_def)
  have 1: "?ch \<longrightarrow> \<not> contains h t key \<and> (3 < size1 \<or> 4 * c < 5 * u)"
  proof
    assume ch: ?ch
    with nochange pos have lt: "c < INT_MAX" by (cases "c = INT_MAX") simp_all
    from iff [OF lt] ch have nc: "\<not> contains h t key" and cond: ?cond by simp_all
    from cond show "\<not> contains h t key \<and> (3 < size1 \<or> 4 * c < 5 * u)"
    proof
      assume "3 < size1"
      with nc show ?thesis by simp
    next
      assume "maxFillFactor < fillFactor t1"
      then have "maxFillFactor < double_div (double_of_int u) (double_of_int c)"
        by (simp only: fill(1) [OF nc])
      from fill_trigger_only_if [OF fill(2) [OF nc] fill(3) [OF nc] pos(1) this] nc
      show ?thesis by simp
    qed
  qed
  have 2: "\<not> contains h t key \<and> c < INT_MAX \<and> 3 < size1 \<longrightarrow> ?ch"
    using iff by simp
  have 3: "\<not> contains h t key \<and> c < INT_MAX \<and> c < (16777216 * u - 13421773 * c) * 1073741824 \<longrightarrow> ?ch"
  proof
    assume a: "\<not> contains h t key \<and> c < INT_MAX \<and> c < (16777216 * u - 13421773 * c) * 1073741824"
    then have nc: "\<not> contains h t key" and lt: "c < INT_MAX"
      and m: "c < (16777216 * u - 13421773 * c) * 1073741824" by simp_all
    from fill_trigger_margin [OF fill(2) [OF nc] fill(3) [OF nc] pos(1) m]
    have "maxFillFactor < fillFactor t1" by (simp only: fill(1) [OF nc])
    with iff [OF lt] nc show ?ch by simp
  qed
  have 4: "\<not> contains h t key \<and> c < 1073741824 \<and> 13421773 * c < 16777216 * u \<longrightarrow> ?ch"
  proof
    assume a: "\<not> contains h t key \<and> c < 1073741824 \<and> 13421773 * c < 16777216 * u"
    then have "1 \<le> 16777216 * u - 13421773 * c" by simp
    then have "1 * 1073741824 \<le> (16777216 * u - 13421773 * c) * 1073741824"
      by (intro mult_right_mono) simp_all
    with a have "c < (16777216 * u - 13421773 * c) * 1073741824" by simp
    moreover from a have "c < INT_MAX" by (simp add: INT_MAX_def)
    ultimately show ?ch using 3 a by blast
  qed
  have 5: "\<not> contains h t key \<and> c < 16777216 \<and> 4 * c < 5 * u \<longrightarrow> ?ch"
  proof
    assume a: "\<not> contains h t key \<and> c < 16777216 \<and> 4 * c < 5 * u"
    then have "13421773 * c < 16777216 * u" by simp
    with a 4 show ?ch by simp
  qed
  have 6: "?ch \<longrightarrow> r = rehashing h t1 \<and> fst r = None \<and>
            bucket_count (snd r) = (if c < 1073741824 then 2 * c + 1 else c + 1)"
  proof
    assume ch: ?ch
    with nochange pos have lt: "c < INT_MAX" by (cases "c = INT_MAX") simp_all
    from iff [OF lt] ch have nc: "\<not> contains h t key" and cond: ?cond by simp_all
    from set_ch_cases(3) [OF inv nc, of val] cond have eq: "r = rehashing h t1"
      by (simp add: r_def t1_def size1_def)
    from rehashing_after_insert(1) [OF inv nc, of val] lt
    have ok: "fst (rehashing h t1) = None" "capacity (snd (rehashing h t1)) = new_capacity c"
      by (simp_all add: t1_def c_def)
    have "new_capacity c = (if c < 1073741824 then 2 * c + 1 else c + 1)"
      using new_capacity_small [OF pos(1)] new_capacity_guard [of c] lt by simp
    with eq ok show "r = rehashing h t1 \<and> fst r = None \<and>
            bucket_count (snd r) = (if c < 1073741824 then 2 * c + 1 else c + 1)"
      by (simp add: bucket_count_def)
  qed
  have 7: "bucket_count (snd r) = bucket_count t \<and> \<not> contains h t key \<and> c < INT_MAX \<longrightarrow> r = (None, t1)"
  proof
    assume a: "bucket_count (snd r) = bucket_count t \<and> \<not> contains h t key \<and> c < INT_MAX"
    with iff have "\<not> ?cond" by simp
    with set_ch_cases(2) [OF inv, of key val] a show "r = (None, t1)"
      by (simp add: r_def t1_def size1_def)
  qed
  from 1 2 3 4 5 6 7 show ?thesis by blast
qed

lemma invar_ex_table_filled: "invar ex_hash (run ex_hash [Set 3 ''c'', Set 4 ''d''] ex_table)"
  using run_invar [OF invar_ex_table] by blast

theorem set_rehash_trigger_witness:
  "invar ex_hash ex_table \<and> bucket_count ex_table = 5 \<and>
   \<not> contains ex_hash ex_table 16 \<and> capacity ex_table < INT_MAX \<and>
   3 < bucket_sizes (insert_node ex_hash ex_table 16 ''p'') ! bucket_index ex_hash ex_table 16 \<and>
   bucket_count (snd (set_ch ex_hash ex_table 16 ''p'')) \<noteq> bucket_count ex_table \<and>
   set_ch ex_hash ex_table 16 ''p'' = rehashing ex_hash (insert_node ex_hash ex_table 16 ''p'') \<and>
   bucket_count (snd (set_ch ex_hash ex_table 16 ''p'')) = 11 \<and>
   \<not> contains ex_hash ex_table 7 \<and>
   bucket_count (snd (set_ch ex_hash ex_table 7 ''g'')) = bucket_count ex_table \<and>
   set_ch ex_hash ex_table 7 ''g'' = (None, insert_node ex_hash ex_table 7 ''g'') \<and>
   invar ex_hash (run ex_hash [Set 3 ''c'', Set 4 ''d''] ex_table) \<and>
   bucket_count (run ex_hash [Set 3 ''c'', Set 4 ''d''] ex_table) = 5 \<and>
   \<not> contains ex_hash (run ex_hash [Set 3 ''c'', Set 4 ''d''] ex_table) 0 \<and>
   4 * capacity (run ex_hash [Set 3 ''c'', Set 4 ''d''] ex_table)
     < 5 * usedBuckets (insert_node ex_hash (run ex_hash [Set 3 ''c'', Set 4 ''d''] ex_table) 0 ''z'') \<and>
   bucket_count (snd (set_ch ex_hash (run ex_hash [Set 3 ''c'', Set 4 ''d''] ex_table) 0 ''z'')) = 11"
proof -
  have c: "bucket_count ex_table = 5" "capacity ex_table = 5"
    "\<not> contains ex_hash ex_table 16"
    "3 < bucket_sizes (insert_node ex_hash ex_table 16 ''p'') ! bucket_index ex_hash ex_table 16"
    "\<not> contains ex_hash ex_table 7"
    "bucket_count (snd (set_ch ex_hash ex_table 7 ''g'')) = bucket_count ex_table"
    "bucket_count (run ex_hash [Set 3 ''c'', Set 4 ''d''] ex_table) = 5"
    "capacity (run ex_hash [Set 3 ''c'', Set 4 ''d''] ex_table) = 5"
    "\<not> contains ex_hash (run ex_hash [Set 3 ''c'', Set 4 ''d''] ex_table) 0"
    "usedBuckets (insert_node ex_hash (run ex_hash [Set 3 ''c'', Set 4 ''d''] ex_table) 0 ''z'') = 5"
    by code_simp+
  from set_rehash_trigger [OF invar_ex_table, of 16 "''p''"]
    set_rehash_trigger [OF invar_ex_table, of 7 "''g''"]
    set_rehash_trigger [OF invar_ex_table_filled, of 0 "''z''"]
    invar_ex_table invar_ex_table_filled c
  show ?thesis by (simp add: INT_MAX_def)
qed

lemma map_upt_update:
  "m < n \<Longrightarrow> (map f [0..<n])[m := x] = map (f(m := x)) [0..<n]"
  by (rule nth_equalityI) (auto simp: nth_list_update)

lemma fill_table_index: "m < fill_cap \<Longrightarrow> bucket_index ex_hash (fill_table k) m = m"
  by (simp add: bucket_index_def ex_hash_def fill_table_def)

lemma fill_table_absent:
  assumes "m < fill_cap"
  shows "\<not> contains ex_hash (fill_table m) m"
  using assms by (simp add: contains_def fill_table_index) (simp add: fill_table_def)

lemma fill_table_insert:
  assumes "m < fill_cap"
  shows "insert_node ex_hash (fill_table m) m ''v'' = fill_table (Suc m)"
proof -
  have a: "(\<lambda>i. if i < m then [(i, ''v'')] else [])(m := [(m, ''v'')]) =
           (\<lambda>i. if i < Suc m then [(i, ''v'')] else [])"
    by (auto simp: fun_eq_iff less_Suc_eq)
  have b: "(\<lambda>i. if i < m then 1 else 0)(m := (1::int)) = (\<lambda>i. if i < Suc m then 1 else 0)"
    by (auto simp: fun_eq_iff less_Suc_eq)
  have "insert_node ex_hash (fill_table m) m ''v'' =
     \<lparr>array = (map (\<lambda>i. if i < m then [(i, ''v'')] else []) [0..<fill_cap])[m := [(m, ''v'')]],
      nsize = int m + 1, capacity = int fill_cap,
      bucket_sizes = (map (\<lambda>i. if i < m then 1 else 0) [0..<fill_cap])[m := 1],
      usedBuckets = int m + 1\<rparr>"
    using assms by (simp add: insert_node_def Let_def fill_table_index) (simp add: fill_table_def)
  also have "\<dots> = fill_table (Suc m)"
    unfolding map_upt_update [OF assms] a b by (simp add: fill_table_def)
  finally show ?thesis .
qed

lemma fill_table_set:
  assumes m: "m < fill_cap" and f: "16777216 * int (Suc m) \<le> 13421773 * int fill_cap"
  shows "set_ch ex_hash (fill_table m) m ''v'' = (None, fill_table (Suc m))"
proof -
  have bs: "bucket_sizes (fill_table (Suc m)) ! m = 1"
    using m by (simp add: fill_table_def)
  from m have c: "0 < int fill_cap" by simp
  from f have "16777216 * (of_int (int (Suc m)) :: rat) \<le> 13421773 * of_int (int fill_cap)"
    by (simp only: of_int_le_iff [symmetric, where 'a = rat] of_int_mult of_int_numeral)
  then have q: "(of_int (int (Suc m)) :: rat) / of_int (int fill_cap) \<le> 13421773 / 16777216"
    using c by (simp add: field_simps)
  have "\<not> maxFillFactor < fillFactor (fill_table (Suc m))"
    unfolding fillFactor_def
    using fill_quotient_le_threshold [OF _ _ c q] m by (simp add: fill_table_def)
  with bs show ?thesis
    using set_ch_insert [OF fill_table_absent [OF m], of "''v''"]
    by (simp add: fill_table_insert [OF m] fill_table_index [OF m] Let_def maxColision_def)
qed

lemma fill_table_reached:
  "16777216 * int m \<le> 13421773 * int fill_cap \<Longrightarrow>
   run ex_hash (map (\<lambda>i. Set i ''v'') [0..<m]) (ChainHash_init (int fill_cap)) = fill_table m"
proof (induction m)
  case 0
  have "fill_cap \<noteq> 0" by (simp add: fill_cap_def)
  then show ?case
    by (simp add: run_def ChainHash_init_def fill_table_def Let_def map_replicate_const)
next
  case (Suc m)
  then have le: "16777216 * int m \<le> 13421773 * int fill_cap" by simp
  have lt: "m < fill_cap"
  proof (rule ccontr)
    assume "\<not> m < fill_cap"
    then have "int fill_cap \<le> int m" by simp
    with Suc.prems show False by simp
  qed
  have "run ex_hash (map (\<lambda>i. Set i ''v'') [0..<Suc m]) (ChainHash_init (int fill_cap)) =
        snd (set_ch ex_hash (run ex_hash (map (\<lambda>i. Set i ''v'') [0..<m]) (ChainHash_init (int fill_cap))) m ''v'')"
    by (simp add: run_def)
  also have "\<dots> = snd (set_ch ex_hash (fill_table m) m ''v'')" by (simp only: Suc.IH [OF le])
  also have "\<dots> = fill_table (Suc m)" by (simp add: fill_table_set [OF lt Suc.prems])
  finally show ?case .
qed

lemma invar_fill_table:
  assumes "16777216 * int m \<le> 13421773 * int fill_cap"
  shows "invar ex_hash (fill_table m)"
proof -
  have "invar ex_hash (ChainHash_init (int fill_cap) :: (nat, string) ChainHash)"
    by (rule invar_init) (simp add: fill_cap_def INT_MAX_def)
  from run_invar [OF this, of "map (\<lambda>i. Set i ''v'') [0..<m]"] fill_table_reached [OF assms]
  show ?thesis by simp
qed

lemma fill_table_no_rehash:
  "invar ex_hash (fill_table 13421772) \<and>
   capacity (fill_table 13421772) = 16777216 \<and>
   \<not> contains ex_hash (fill_table 13421772) 13421772 \<and>
   4 * capacity (insert_node ex_hash (fill_table 13421772) 13421772 ''v'')
     < 5 * usedBuckets (insert_node ex_hash (fill_table 13421772) 13421772 ''v'') \<and>
   set_ch ex_hash (fill_table 13421772) 13421772 ''v'' =
     (None, insert_node ex_hash (fill_table 13421772) 13421772 ''v'') \<and>
   bucket_count (snd (set_ch ex_hash (fill_table 13421772) 13421772 ''v'')) =
     bucket_count (fill_table 13421772)"
proof -
  have m: "(13421772::nat) < fill_cap" by (simp add: fill_cap_def)
  have f: "16777216 * int (Suc 13421772) \<le> 13421773 * int fill_cap" by (simp add: fill_cap_def)
  have f': "16777216 * int 13421772 \<le> 13421773 * int fill_cap" by (simp add: fill_cap_def)
  have cap: "int fill_cap = 16777216" by (simp add: fill_cap_def)
  have 1: "invar ex_hash (fill_table 13421772)" by (rule invar_fill_table [OF f'])
  have 3: "capacity (fill_table 13421772) = 16777216"
    unfolding cap [symmetric] by (simp add: fill_table_def)
  have 4: "\<not> contains ex_hash (fill_table 13421772) 13421772" by (rule fill_table_absent [OF m])
  have 5: "4 * capacity (insert_node ex_hash (fill_table 13421772) 13421772 ''v'')
     < 5 * usedBuckets (insert_node ex_hash (fill_table 13421772) 13421772 ''v'')"
    unfolding fill_table_insert [OF m] by (simp add: fill_table_def) (simp add: fill_cap_def)
  have 6: "set_ch ex_hash (fill_table 13421772) 13421772 ''v'' =
     (None, insert_node ex_hash (fill_table 13421772) 13421772 ''v'')"
    unfolding fill_table_insert [OF m] by (rule fill_table_set [OF m f])
  have 7: "bucket_count (snd (set_ch ex_hash (fill_table 13421772) 13421772 ''v'')) =
     bucket_count (fill_table 13421772)"
    unfolding 6 fill_table_insert [OF m] by (simp add: bucket_count_def fill_table_def)
  from 1 3 4 5 6 7 show ?thesis by blast
qed

lemma fill_table_13421772_reached:
  "fill_table 13421772 =
     run ex_hash (map (\<lambda>i. Set i ''v'') [0..<13421772]) (ChainHash_init 16777216)"
proof -
  have f': "16777216 * int 13421772 \<le> 13421773 * int fill_cap" by (simp add: fill_cap_def)
  have cap: "int fill_cap = 16777216" by (simp add: fill_cap_def)
  show ?thesis using fill_table_reached [OF f'] by (simp only: cap)
qed

lemma guard_cap_pos: "0 < guard_cap"
  by (simp add: guard_cap_def)

lemma replicate_guard_cap: "replicate guard_cap x = x # replicate (guard_cap - 1) x"
proof -
  from guard_cap_pos have "guard_cap = Suc (guard_cap - 1)" by simp
  then have "replicate guard_cap x = replicate (Suc (guard_cap - 1)) x" by (rule arg_cong)
  then show ?thesis by (simp only: replicate_Suc)
qed

lemma bucket0_table_init: "ChainHash_init (int guard_cap) = bucket0_table []"
  using guard_cap_pos by (simp add: ChainHash_init_def bucket0_table_def Let_def replicate_guard_cap)

lemma bucket0_table_index:
  "key mod guard_cap = 0 \<Longrightarrow> bucket_index ex_hash (bucket0_table chain) key = 0"
  by (simp add: bucket_index_def ex_hash_def bucket0_table_def)

lemma bucket0_table_insert:
  assumes "key mod guard_cap = 0"
  shows "insert_node ex_hash (bucket0_table chain) key val = bucket0_table ((key, val) # chain)"
  by (simp add: insert_node_def Let_def bucket0_table_index [OF assms]) (simp add: bucket0_table_def)

lemma bucket0_table_contains:
  assumes "key mod guard_cap = 0"
  shows "contains ex_hash (bucket0_table chain) key = contains_loop key chain"
  by (simp add: contains_def bucket0_table_index [OF assms]) (simp add: bucket0_table_def)

lemma bucket0_table_fill: "\<not> maxFillFactor < fillFactor (bucket0_table ((key, val) # chain))"
proof -
  have c: "0 < int guard_cap" using guard_cap_pos by simp
  have q: "(of_int 1 :: rat) / of_int (int guard_cap) \<le> 13421773 / 16777216"
    by (simp add: guard_cap_def)
  have "(1::int) \<le> int guard_cap" using guard_cap_pos by simp
  from fill_quotient_le_threshold [OF _ this c q] show ?thesis
    by (simp add: fillFactor_def bucket0_table_def)
qed

lemma bucket0_table_set:
  assumes k: "key mod guard_cap = 0" and nc: "\<not> contains_loop key chain" and l: "length chain < 3"
  shows "set_ch ex_hash (bucket0_table chain) key val = (None, bucket0_table ((key, val) # chain))"
proof -
  have nc': "\<not> contains ex_hash (bucket0_table chain) key"
    using nc by (simp add: bucket0_table_contains [OF k])
  have "bucket_sizes (bucket0_table ((key, val) # chain)) ! 0 \<le> 3"
    using l by (simp add: bucket0_table_def)
  with bucket0_table_fill [of key val chain] show ?thesis
    using set_ch_insert [OF nc', of val]
    by (simp add: bucket0_table_insert [OF k] bucket0_table_index [OF k] Let_def maxColision_def)
qed

lemma guard_table_reached:
  "run ex_hash [Set 0 ''a'', Set guard_cap ''b'', Set (2 * guard_cap) ''c'']
     (ChainHash_init (int guard_cap)) = guard_table"
proof -
  note p = guard_cap_pos
  have 1: "set_ch ex_hash (bucket0_table []) 0 ''a'' = (None, bucket0_table [(0, ''a'')])"
    by (rule bucket0_table_set) simp_all
  have 2: "set_ch ex_hash (bucket0_table [(0, ''a'')]) guard_cap ''b'' =
      (None, bucket0_table [(guard_cap, ''b''), (0, ''a'')])"
    by (rule bucket0_table_set) (use p in simp_all)
  have 3: "set_ch ex_hash (bucket0_table [(guard_cap, ''b''), (0, ''a'')]) (2 * guard_cap) ''c'' =
      (None, bucket0_table [(2 * guard_cap, ''c''), (guard_cap, ''b''), (0, ''a'')])"
    by (rule bucket0_table_set) (use p in simp_all)
  show ?thesis
    by (simp add: run_def bucket0_table_init 1 2 3 guard_table_def)
qed

lemma invar_guard_table: "invar ex_hash guard_table"
proof -
  have "invar ex_hash (ChainHash_init (int guard_cap) :: (nat, string) ChainHash)"
    by (rule invar_init) (simp add: guard_cap_def INT_MAX_def)
  from run_invar [OF this, of "[Set 0 ''a'', Set guard_cap ''b'', Set (2 * guard_cap) ''c'']"]
  show ?thesis by (simp only: guard_table_reached)
qed

lemma guard_table_rehash:
  "bucket_count guard_table = 1073741824 \<and>
   \<not> contains ex_hash guard_table 3221225472 \<and>
   3 < bucket_sizes (insert_node ex_hash guard_table 3221225472 ''d'') ! bucket_index ex_hash guard_table 3221225472 \<and>
   set_ch ex_hash guard_table 3221225472 ''d'' =
     rehashing ex_hash (insert_node ex_hash guard_table 3221225472 ''d'') \<and>
   fst (set_ch ex_hash guard_table 3221225472 ''d'') = None \<and>
   bucket_count (snd (set_ch ex_hash guard_table 3221225472 ''d'')) = 1073741825 \<and>
   2 * bucket_count guard_table + 1 = 2147483649"
proof -
  note p = guard_cap_pos
  have key: "(3221225472::nat) = 3 * guard_cap" by (simp add: guard_cap_def)
  have k: "(3 * guard_cap) mod guard_cap = 0" by simp
  have "capacity guard_table = int guard_cap" by (simp add: guard_table_def bucket0_table_def)
  then have cap: "capacity guard_table = 1073741824" by (simp add: guard_cap_def)
  have nc: "\<not> contains ex_hash guard_table (3 * guard_cap)"
    using p by (simp add: guard_table_def bucket0_table_contains [OF k])
  have sz: "3 < bucket_sizes (insert_node ex_hash guard_table (3 * guard_cap) ''d'') !
              bucket_index ex_hash guard_table (3 * guard_cap)"
    unfolding guard_table_def bucket0_table_insert [OF k] bucket0_table_index [OF k]
    by (simp add: bucket0_table_def)
  from set_ch_cases(3) [OF invar_guard_table nc, of "''d''"] sz
  have eq: "set_ch ex_hash guard_table (3 * guard_cap) ''d'' =
      rehashing ex_hash (insert_node ex_hash guard_table (3 * guard_cap) ''d'')" by simp
  have lt: "capacity guard_table < INT_MAX" by (simp add: cap INT_MAX_def)
  from rehashing_after_insert(1) [OF invar_guard_table nc lt, of "''d''"]
  have ok: "fst (rehashing ex_hash (insert_node ex_hash guard_table (3 * guard_cap) ''d'')) = None"
    "capacity (snd (rehashing ex_hash (insert_node ex_hash guard_table (3 * guard_cap) ''d''))) =
       new_capacity 1073741824"
    by (simp_all add: cap)
  have nk: "new_capacity 1073741824 = 1073741825" by (rule new_capacity_examples)
  from cap nc sz eq ok nk show ?thesis
    unfolding key by (simp add: bucket_count_def)
qed

text \<open>
  Claim C4 as stated fails in two places.
  \<^item> The capacity after a rehash. \<open>guard_table\<close> has \<open>2 ^ 30\<close> buckets and three keys in
    bucket 0; it is reached from the constructor by three calls of \<open>set\<close>. Setting the new
    key \<open>3221225472\<close> makes the size of bucket 0 four, so \<open>set\<close> rehashes; \<^verbatim>\<open>oldCap * 2 + 1\<close>
    wraps around, the guard of \<^verbatim>\<open>rehashing\<close> fires, and the new capacity is
    \<open>1073741825\<close>, not \<open>2 * 1073741824 + 1\<close>.
  \<^item> The fill-factor test. \<open>fill_table 13421772\<close> has \<open>2 ^ 24\<close> buckets and is reached from
    the constructor by setting the keys \<open>0, \<dots>, 13421771\<close>. Setting the new key
    \<open>13421772\<close> occupies one more bucket: \<open>usedBuckets / capacity\<close> is then
    \<open>13421773 / 16777216\<close>, which exceeds \<open>4/5\<close>, but the \<^verbatim>\<open>double\<close> quotient equals the
    \<^verbatim>\<open>float\<close> constant \<^verbatim>\<open>maxFillFactor\<close> and does not exceed it: \<open>set\<close> inserts and does
    not rehash.
\<close>

theorem set_rehash_claim_counterexample:
  "(bucket_count guard_table = 1073741824 \<and>
   \<not> contains ex_hash guard_table 3221225472 \<and>
   3 < bucket_sizes (insert_node ex_hash guard_table 3221225472 ''d'') ! bucket_index ex_hash guard_table 3221225472 \<and>
   set_ch ex_hash guard_table 3221225472 ''d'' =
     rehashing ex_hash (insert_node ex_hash guard_table 3221225472 ''d'') \<and>
   fst (set_ch ex_hash guard_table 3221225472 ''d'') = None \<and>
   bucket_count (snd (set_ch ex_hash guard_table 3221225472 ''d'')) = 1073741825 \<and>
   2 * bucket_count guard_table + 1 = 2147483649) \<and>
   (invar ex_hash (fill_table 13421772) \<and>
   capacity (fill_table 13421772) = 16777216 \<and>
   \<not> contains ex_hash (fill_table 13421772) 13421772 \<and>
   4 * capacity (insert_node ex_hash (fill_table 13421772) 13421772 ''v'')
     < 5 * usedBuckets (insert_node ex_hash (fill_table 13421772) 13421772 ''v'') \<and>
   set_ch ex_hash (fill_table 13421772) 13421772 ''v'' =
     (None, insert_node ex_hash (fill_table 13421772) 13421772 ''v'') \<and>
   bucket_count (snd (set_ch ex_hash (fill_table 13421772) 13421772 ''v'')) =
     bucket_count (fill_table 13421772))"
  by (rule conjI [OF guard_table_rehash fill_table_no_rehash])

end
